theory Spec2Isabelle
  imports Main
begin

section \<open>C strings, characters and diagnostics\<close>

text \<open>
  The repository holds two complete variants of the macro preprocessor: the program at the
  head of \<^verbatim>\<open>submission/proj1.c\<close> (a global output buffer, \<^verbatim>\<open>raise_error\<close>, \<^verbatim>\<open>is_builtin\<close>)
  and the program at the head of \<^verbatim>\<open>submission2/proj1.c\<close> (an output callback, errors printed
  where they occur). Definitions without a suffix embed the first; definitions whose name
  ends in \<open>2\<close> embed the second. Functions whose source text is the same in both are embedded
  once.

  A C string is the list of its characters before the terminating NUL. \<^verbatim>\<open>malloc\<close>,
  \<^verbatim>\<open>realloc\<close> and \<^verbatim>\<open>strdup\<close> are taken to succeed, and the \<^verbatim>\<open>int\<close> counters of
  \<^verbatim>\<open>readArg\<close> are unbounded integers (they overflow only on arguments of more than
  \<open>2^31\<close> characters).
\<close>

abbreviation BSL :: char where "BSL \<equiv> CHR 0x5C"
abbreviation NUL :: char where "NUL \<equiv> CHR 0x00"
abbreviation NL :: char where "NL \<equiv> CHR 0x0A"
abbreviation TAB :: char where "TAB \<equiv> CHR 0x09"

text \<open>\<^verbatim>\<open>isalnum\<close> and \<^verbatim>\<open>isspace\<close> of \<^verbatim>\<open>ctype.h\<close> in the C locale, on an unsigned char.\<close>

definition isalnum :: "char \<Rightarrow> bool" where
  "isalnum c = (let n = (of_char c :: nat) in
     (48 \<le> n \<and> n \<le> 57) \<or> (65 \<le> n \<and> n \<le> 90) \<or> (97 \<le> n \<and> n \<le> 122))"

definition isspace :: "char \<Rightarrow> bool" where
  "isspace c = (let n = (of_char c :: nat) in n = 32 \<or> (9 \<le> n \<and> n \<le> 13))"

text \<open>The test \<^verbatim>\<open>c == '\\' || c == '{' || c == '}' || c == '#' || c == '%'\<close>, written inline
  in \<^verbatim>\<open>expand_text_impl\<close> and in the template loop.\<close>

definition is_special :: "char \<Rightarrow> bool" where
  "is_special c = (c = BSL \<or> c = CHR ''{'' \<or> c = CHR ''}'' \<or> c = CHR ''#'' \<or> c = CHR ''%'')"

text \<open>
  One constructor per diagnostic message that the programs print before they exit; \<open>n\<close> and
  \<open>p\<close> are the name and the path that the message quotes with \<^verbatim>\<open>%s\<close>. The error kinds of
  the spec are: \<open>DuplicateMacro\<close>; \<open>UndefinedMacro\<close> (here \<open>UndefinedMacro\<close> at an invocation
  and \<open>CannotUndefine\<close> in \<^verbatim>\<open>undef_macro\<close>); \<open>InvalidMacroName\<close> (here \<open>InvalidMacroName\<close> in
  \<^verbatim>\<open>\def\<close> and \<open>InvalidIfdefName\<close> in \<^verbatim>\<open>\ifdef\<close>); \<open>UnbalancedBraces\<close>; \<open>MissingArgument\<close> (here
  \<open>MissingArgument\<close> in \<^verbatim>\<open>readArg\<close> of the first variant, and in the second variant
  \<open>UndefUsage\<close>, \<open>IfArguments\<close>, \<open>IfdefArguments\<close>, \<open>IncludeArgument\<close>, \<open>ExpandafterArguments\<close>
  and \<open>NoArgument\<close>); \<open>FileNotFound\<close>.
\<close>

datatype error =
    DuplicateMacro string
  | UndefinedMacro string
  | CannotUndefine string
  | InvalidMacroName
  | InvalidIfdefName
  | UnbalancedBraces
  | MissingArgument
  | UndefUsage
  | IfArguments
  | IfdefArguments
  | IncludeArgument
  | ExpandafterArguments
  | NoArgument string
  | FileNotFound string




section \<open>The macro table\<close>

text \<open>A \<^verbatim>\<open>Macro\<close> node is its (name, value) pair; the \<^verbatim>\<open>next\<close> pointers from
  \<^verbatim>\<open>table->head\<close> make the list, head first.\<close>

type_synonym Macro = "string \<times> string"
type_synonym MacroTable = "Macro list"

definition init_macro_table :: MacroTable where
  "init_macro_table = []"

definition is_builtin :: "string \<Rightarrow> bool" where
  "is_builtin name =
     (name \<in> set [''def'', ''undef'', ''if'', ''ifdef'', ''include'', ''expandafter''])"

definition define_macro :: "MacroTable \<Rightarrow> string \<Rightarrow> string \<Rightarrow> error + MacroTable" where
  "define_macro table name val =
     (if is_builtin name then Inr table
      else if list_ex (\<lambda>cur. fst cur = name) table then Inl (DuplicateMacro name)
      else Inr ((name, val) # table))"

definition define_macro2 :: "MacroTable \<Rightarrow> string \<Rightarrow> string \<Rightarrow> error + MacroTable" where
  "define_macro2 table name val =
     (if list_ex (\<lambda>cur. fst cur = name) table then Inl (DuplicateMacro name)
      else Inr ((name, val) # table))"

text \<open>\<^verbatim>\<open>undef_macro\<close> unlinks the first node with the name.\<close>

fun undef_macro :: "MacroTable \<Rightarrow> string \<Rightarrow> error + MacroTable" where
  "undef_macro [] name = Inl (CannotUndefine name)"
| "undef_macro (cur # rest) name =
     (if fst cur = name then Inr rest
      else (case undef_macro rest name of
              Inl e \<Rightarrow> Inl e
            | Inr rest' \<Rightarrow> Inr (cur # rest')))"

fun lookup_macro :: "MacroTable \<Rightarrow> string \<Rightarrow> string option" where
  "lookup_macro [] name = None"
| "lookup_macro (cur # rest) name =
     (if fst cur = name then Some (snd cur) else lookup_macro rest name)"

text \<open>
  The operations that \<^verbatim>\<open>\def\<close> and \<^verbatim>\<open>\undef\<close> perform on the table during a run, and the
  table that a sequence of them leaves, for each variant; an operation that fails ends the
  run.
\<close>

datatype table_op = Define string string | Undefine string

fun apply_ops :: "MacroTable \<Rightarrow> table_op list \<Rightarrow> error + MacroTable" where
  "apply_ops table [] = Inr table"
| "apply_ops table (Define name val # ops) =
     (case define_macro table name val of
        Inl e \<Rightarrow> Inl e
      | Inr table' \<Rightarrow> apply_ops table' ops)"
| "apply_ops table (Undefine name # ops) =
     (case undef_macro table name of
        Inl e \<Rightarrow> Inl e
      | Inr table' \<Rightarrow> apply_ops table' ops)"

fun apply_ops2 :: "MacroTable \<Rightarrow> table_op list \<Rightarrow> error + MacroTable" where
  "apply_ops2 table [] = Inr table"
| "apply_ops2 table (Define name val # ops) =
     (case define_macro2 table name val of
        Inl e \<Rightarrow> Inl e
      | Inr table' \<Rightarrow> apply_ops2 table' ops)"
| "apply_ops2 table (Undefine name # ops) =
     (case undef_macro table name of
        Inl e \<Rightarrow> Inl e
      | Inr table' \<Rightarrow> apply_ops2 table' ops)"

section \<open>The argument reader\<close>

definition skip_spaces :: "string \<Rightarrow> string" where
  "skip_spaces p = dropWhile isspace p"

text \<open>
  The \<^verbatim>\<open>while (**pp && braceDepth > 0)\<close> loop of \<^verbatim>\<open>readArg\<close> in the first variant. The state
  is \<^verbatim>\<open>braceDepth\<close>, \<^verbatim>\<open>backslashCount\<close>, the buffer and the cursor; the result is the
  state in which the loop stops.
\<close>

fun readArg_loop :: "int \<Rightarrow> int \<Rightarrow> string \<Rightarrow> string \<Rightarrow> int \<times> string \<times> string" where
  "readArg_loop braceDepth backslashCount buf [] = (braceDepth, buf, [])"
| "readArg_loop braceDepth backslashCount buf (c # p) =
     (if \<not> braceDepth > 0 then (braceDepth, buf, c # p)
      else if c = BSL then readArg_loop braceDepth (backslashCount + 1) (buf @ [c]) p
      else
        (let isEscaped = (backslashCount mod 2 = 1) in
         if c = CHR ''{'' \<and> \<not> isEscaped then
           readArg_loop (braceDepth + 1) 0 (buf @ [c]) p
         else if c = CHR ''}'' \<and> \<not> isEscaped then
           (if braceDepth - 1 = 0 then (braceDepth - 1, buf, p)
            else readArg_loop (braceDepth - 1) 0
                   (if braceDepth - 1 > 0 then buf @ [c] else buf) p)
         else readArg_loop braceDepth 0 (if braceDepth > 0 then buf @ [c] else buf) p))"

text \<open>\<^verbatim>\<open>readArg\<close> of the first variant: the captured argument and the cursor after it, or
  the diagnostic of \<^verbatim>\<open>raise_error\<close>.\<close>

definition readArg :: "string \<Rightarrow> error + string \<times> string" where
  "readArg pp =
     (case skip_spaces pp of
        [] \<Rightarrow> Inl MissingArgument
      | c # p \<Rightarrow>
          if c \<noteq> CHR ''{'' then Inl MissingArgument
          else (case readArg_loop 1 0 [] p of
                  (braceDepth, buf, p') \<Rightarrow>
                    if braceDepth \<noteq> 0 then Inl UnbalancedBraces else Inr (buf, p')))"

text \<open>The loop of \<^verbatim>\<open>readArg\<close> in the second variant, with its \<^verbatim>\<open>escaped\<close> flag.\<close>

fun readArg_loop2 :: "int \<Rightarrow> bool \<Rightarrow> string \<Rightarrow> string \<Rightarrow> int \<times> string \<times> string" where
  "readArg_loop2 braceDepth escaped buf [] = (braceDepth, buf, [])"
| "readArg_loop2 braceDepth escaped buf (c # p) =
     (if \<not> braceDepth > 0 then (braceDepth, buf, c # p)
      else if \<not> escaped then
        (if c = BSL then readArg_loop2 braceDepth True (buf @ [c]) p
         else if c = CHR ''{'' then readArg_loop2 (braceDepth + 1) False (buf @ [c]) p
         else if c = CHR ''}'' then
           readArg_loop2 (braceDepth - 1) False
             (if braceDepth - 1 > 0 then buf @ [c] else buf) p
         else readArg_loop2 braceDepth False (buf @ [c]) p)
      else readArg_loop2 braceDepth False (buf @ [c]) p)"

text \<open>\<^verbatim>\<open>readArg\<close> of the second variant returns \<^verbatim>\<open>NULL\<close> (here \<open>None\<close>), with the cursor
  left after the white space it skipped, when the next character is not an opening brace.\<close>

definition readArg2 :: "string \<Rightarrow> error + string option \<times> string" where
  "readArg2 pp =
     (case skip_spaces pp of
        [] \<Rightarrow> Inr (None, [])
      | c # p \<Rightarrow>
          if c \<noteq> CHR ''{'' then Inr (None, c # p)
          else (case readArg_loop2 1 False [] p of
                  (braceDepth, buf, p') \<Rightarrow>
                    if braceDepth \<noteq> 0 then Inl UnbalancedBraces else Inr (Some buf, p')))"

text \<open>
  Following the spec's words (section 4.2, Argument Reader), for comparison with the two loops
  above: the brace depth after a text, from a depth counter and an escaped state. A backslash
  puts the reader in the escaped state for exactly the next character, which does not alter
  the depth; an unescaped opening brace increments the depth, an unescaped closing brace
  decrements it.
\<close>

fun spec_depth :: "int \<Rightarrow> bool \<Rightarrow> string \<Rightarrow> int" where
  "spec_depth depth escaped [] = depth"
| "spec_depth depth escaped (c # cs) =
     (if escaped then spec_depth depth False cs
      else if c = BSL then spec_depth depth True cs
      else if c = CHR ''{'' then spec_depth (depth + 1) False cs
      else if c = CHR ''}'' then spec_depth (depth - 1) False cs
      else spec_depth depth False cs)"

section \<open>Reading files\<close>

text \<open>
  The comment-stripping loop shared by \<^verbatim>\<open>read_included_file\<close> and
  \<^verbatim>\<open>read_all_input_and_remove_comments\<close>, over the bytes that \<^verbatim>\<open>fgetc\<close> delivers; the first
  argument is \<^verbatim>\<open>prev\<close>.
\<close>

function remove_comments :: "char \<Rightarrow> string \<Rightarrow> string" where
  "remove_comments prev [] = []"
| "remove_comments prev (c # cs) =
     (if c = CHR ''%'' \<and> prev \<noteq> BSL then
        (case dropWhile (\<lambda>x. x \<noteq> NL) cs of
           [] \<Rightarrow> []
         | nl # cs' \<Rightarrow> remove_comments NUL (dropWhile (\<lambda>x. x = CHR '' '' \<or> x = TAB) cs'))
      else c # remove_comments c cs)"
  by pat_completeness auto
termination
proof (relation "measure (\<lambda>(prev, cs). length cs)")
  fix prev :: char and c :: char and cs :: string and nl :: char and cs' :: string
  assume a: "dropWhile (\<lambda>x. x \<noteq> NL) cs = nl # cs'"
  have "length (dropWhile (\<lambda>x. x = CHR '' '' \<or> x = TAB) cs') \<le> length cs'"
    by (rule length_dropWhile_le)
  moreover have "length (nl # cs') \<le> length cs"
    using length_dropWhile_le [of "\<lambda>x. x \<noteq> NL" cs] a by simp
  ultimately show "((NUL, dropWhile (\<lambda>x. x = CHR '' '' \<or> x = TAB) cs'), (prev, c # cs))
      \<in> measure (\<lambda>(prev, cs). length cs)"
    by simp
qed simp_all

text \<open>The buffer is used as a C string: it ends at its first NUL byte.\<close>

definition c_str :: "string \<Rightarrow> string" where
  "c_str bytes = takeWhile (\<lambda>x. x \<noteq> NUL) bytes"

text \<open>The file system is a map from a path to the bytes of the file; \<^verbatim>\<open>fopen\<close> fails on a
  path outside its domain.\<close>

type_synonym files = "string \<Rightarrow> string option"

definition read_included_file :: "files \<Rightarrow> string \<Rightarrow> error + string" where
  "read_included_file fs path =
     (case fs path of
        None \<Rightarrow> Inl (FileNotFound path)
      | Some bytes \<Rightarrow> Inr (c_str (remove_comments NUL bytes)))"

section \<open>Template instantiation\<close>

text \<open>The \<^verbatim>\<open>while (*m)\<close> loop of the user-macro branch (the same text in both variants): the
  template with its escapes resolved and each plain \<^verbatim>\<open>#\<close> replaced by the argument.\<close>

fun substitute :: "string \<Rightarrow> string \<Rightarrow> string" where
  "substitute [] arg1 = []"
| "substitute [c] arg1 = (if c = CHR ''#'' then arg1 else [c])"
| "substitute (c # next # m) arg1 =
     (if c = BSL then
        (if is_special next then next # substitute m arg1
         else BSL # next # substitute m arg1)
      else if c = CHR ''#'' then arg1 @ substitute (next # m) arg1
      else c # substitute (next # m) arg1)"

section \<open>The expansion engine, first variant\<close>

text \<open>
  \<^verbatim>\<open>expand_text_impl\<close> of \<^verbatim>\<open>submission/proj1.c\<close>. The global \<^verbatim>\<open>g_outputBuffer\<close> is the
  argument \<open>out\<close>, returned updated with the table. \<^verbatim>\<open>raise_error\<close> prints its message and
  calls \<^verbatim>\<open>exit\<close>, so a diagnostic ends every enclosing call: the result \<open>Inl\<close>.

  The function is embedded in layers. \<open>expand_step\<close> is the body of one iteration of
  \<^verbatim>\<open>while (*p && !g_errorOccurred)\<close>, up to the recursive calls that the iteration makes; it
  says which calls follow:
  \<^item> \<open>Return r\<close>: the loop ends (end of input) or \<^verbatim>\<open>raise_error\<close> exits;
  \<^item> \<open>Continue table p out\<close>: \<^verbatim>\<open>continue\<close> with the cursor at \<open>p\<close>;
  \<^item> \<open>Expand text p\<close>: \<^verbatim>\<open>expand_text_impl(table, text)\<close>, then \<^verbatim>\<open>continue\<close> at \<open>p\<close>;
  \<^item> \<open>ExpandAfter beforeArg afterArg p\<close>: the calls of the \<^verbatim>\<open>expandafter\<close> branch.
\<close>

datatype 'r step =
    Return 'r
  | Continue MacroTable string string
  | Expand string string
  | ExpandAfter string string string

definition dispatch ::
  "files \<Rightarrow> MacroTable \<Rightarrow> string \<Rightarrow> string \<Rightarrow> string \<Rightarrow> (error + MacroTable \<times> string) step" where
  "dispatch fs table nameBuf p1 out =
     (if nameBuf = ''def'' then
        (case readArg p1 of Inl e \<Rightarrow> Return (Inl e) | Inr (arg1, p2) \<Rightarrow>
        (case readArg p2 of Inl e \<Rightarrow> Return (Inl e) | Inr (arg2, p3) \<Rightarrow>
         if arg1 = [] then Return (Inl InvalidMacroName)
         else if \<not> list_all isalnum arg1 then Return (Inl InvalidMacroName)
         else (case define_macro table arg1 arg2 of
                 Inl e \<Rightarrow> Return (Inl e)
               | Inr table' \<Rightarrow> Continue table' p3 out)))
      else if nameBuf = ''undef'' then
        (case readArg p1 of Inl e \<Rightarrow> Return (Inl e) | Inr (arg1, p2) \<Rightarrow>
        (case undef_macro table arg1 of
           Inl e \<Rightarrow> Return (Inl e)
         | Inr table' \<Rightarrow> Continue table' p2 out))
      else if nameBuf = ''if'' then
        (case readArg p1 of Inl e \<Rightarrow> Return (Inl e) | Inr (condArg, p2) \<Rightarrow>
        (case readArg p2 of Inl e \<Rightarrow> Return (Inl e) | Inr (thenArg, p3) \<Rightarrow>
        (case readArg p3 of Inl e \<Rightarrow> Return (Inl e) | Inr (elseArg, p4) \<Rightarrow>
         Expand (if condArg = [] then elseArg else thenArg) p4)))
      else if nameBuf = ''ifdef'' then
        (case readArg p1 of Inl e \<Rightarrow> Return (Inl e) | Inr (nameArg, p2) \<Rightarrow>
        (case readArg p2 of Inl e \<Rightarrow> Return (Inl e) | Inr (thenArg, p3) \<Rightarrow>
        (case readArg p3 of Inl e \<Rightarrow> Return (Inl e) | Inr (elseArg, p4) \<Rightarrow>
         if \<not> list_all isalnum nameArg then Return (Inl InvalidIfdefName)
         else Expand (if lookup_macro table nameArg \<noteq> None
                      then thenArg else elseArg) p4)))
      else if nameBuf = ''include'' then
        (case readArg p1 of Inl e \<Rightarrow> Return (Inl e) | Inr (pathArg, p2) \<Rightarrow>
        (case read_included_file fs pathArg of
           Inl e \<Rightarrow> Return (Inl e)
         | Inr includedText \<Rightarrow> Expand includedText p2))
      else if nameBuf = ''expandafter'' then
        (case readArg p1 of Inl e \<Rightarrow> Return (Inl e) | Inr (beforeArg, p2) \<Rightarrow>
        (case readArg p2 of Inl e \<Rightarrow> Return (Inl e) | Inr (afterArg, p3) \<Rightarrow>
         ExpandAfter beforeArg afterArg p3))
      else
        (case lookup_macro table nameBuf of
           None \<Rightarrow> Return (Inl (UndefinedMacro nameBuf))
         | Some macroVal \<Rightarrow>
             (case readArg p1 of Inl e \<Rightarrow> Return (Inl e) | Inr (arg1, p2) \<Rightarrow>
              Expand (substitute macroVal arg1) p2)))"

text \<open>The body of one iteration of the loop; \<open>dispatch\<close> above is its chain of
  \<^verbatim>\<open>strcmp(nameBuf, ...)\<close> tests, entered once the name is followed by an opening brace.\<close>

definition expand_step ::
  "files \<Rightarrow> MacroTable \<Rightarrow> string \<Rightarrow> string \<Rightarrow> (error + MacroTable \<times> string) step" where
  "expand_step fs table input out =
     (case input of
        [] \<Rightarrow> Return (Inr (table, out))
      | c # p \<Rightarrow>
          if c = BSL then
            (case p of
               [] \<Rightarrow> Continue table [] (out @ [BSL])
             | d # p' \<Rightarrow>
                 if is_special d then Continue table p' (out @ [d])
                 else if isalnum d then
                   (let nameBuf = takeWhile isalnum p;
                        p1 = skip_spaces (dropWhile isalnum p)
                    in
                    if (case p1 of [] \<Rightarrow> True | b # _ \<Rightarrow> b \<noteq> CHR ''{'') then
                      Continue table p1 (out @ BSL # nameBuf)
                    else dispatch fs table nameBuf p1 out)
                 else Continue table p' (out @ [BSL, d]))
          else Continue table p (out @ [c]))"

text \<open>
  The calls themselves. The recursion of the C function is not bounded, so the result is an
  \<open>option\<close>: \<open>None\<close> is a run that never returns. In the \<^verbatim>\<open>expandafter\<close> branch
  \<^verbatim>\<open>expand_string_fully\<close> swaps in an empty buffer, expands into it and restores the old
  one: the call with the buffer \<open>[]\<close>, first on \<^verbatim>\<open>afterArg\<close>, then on \<^verbatim>\<open>beforeArg\<close>.
\<close>

partial_function (option) expand_text_impl ::
  "files \<Rightarrow> MacroTable \<Rightarrow> string \<Rightarrow> string \<Rightarrow> (error + MacroTable \<times> string) option" where
  "expand_text_impl fs table input out =
     (case expand_step fs table input out of
        Return r \<Rightarrow> Some r
      | Continue table' p out' \<Rightarrow> expand_text_impl fs table' p out'
      | Expand text p \<Rightarrow>
          Option.bind (expand_text_impl fs table text out)
            (\<lambda>r. case r of Inl e \<Rightarrow> Some (Inl e)
             | Inr (table', out') \<Rightarrow> expand_text_impl fs table' p out')
      | ExpandAfter beforeArg afterArg p \<Rightarrow>
          Option.bind (expand_text_impl fs table afterArg [])
            (\<lambda>r. (case r of Inl e \<Rightarrow> Some (Inl e)
             | Inr (table1, expandedAfter) \<Rightarrow>
          Option.bind (expand_text_impl fs table1 beforeArg [])
            (\<lambda>r. (case r of Inl e \<Rightarrow> Some (Inl e)
             | Inr (table2, expandedBefore) \<Rightarrow>
          Option.bind (expand_text_impl fs table2 (expandedBefore @ expandedAfter) out)
            (\<lambda>r. (case r of Inl e \<Rightarrow> Some (Inl e)
             | Inr (table3, out') \<Rightarrow> expand_text_impl fs table3 p out')))))))"

declare expand_text_impl.simps [code]

text \<open>\<^verbatim>\<open>expand_string_fully\<close>: the expansion of the text into a fresh buffer, returned as a
  string with the table the expansion leaves.\<close>

definition expand_string_fully ::
  "files \<Rightarrow> MacroTable \<Rightarrow> string \<Rightarrow> (error + MacroTable \<times> string) option" where
  "expand_string_fully fs table input = expand_text_impl fs table input []"

section \<open>The expansion engine, second variant\<close>

definition readMacroName :: "string \<Rightarrow> string \<times> string" where
  "readMacroName pp = (takeWhile isalnum pp, dropWhile isalnum pp)"

text \<open>
  \<^verbatim>\<open>expand_text_impl\<close> of \<^verbatim>\<open>submission2/proj1.c\<close> writes through \<^verbatim>\<open>out_char\<close>, either to
  \<^verbatim>\<open>stdout\<close> (\<^verbatim>\<open>out_char_stdout\<close>) or to an \<^verbatim>\<open>OutputBuffer\<close> (\<^verbatim>\<open>out_char_buffer\<close>). The
  argument \<open>out\<close> is the text written so far to that sink. Each error site prints one message
  and calls \<^verbatim>\<open>exit(EXIT_FAILURE)\<close>, which flushes \<^verbatim>\<open>stdout\<close>: the result \<open>Inl (e, out)\<close>
  holds the diagnostic and the text that the sink of this call holds at the exit.

  \<open>expand_step2\<close> is one iteration of \<^verbatim>\<open>while (*p != '\0')\<close> up to its recursive calls:
  \<open>Expand text remaining\<close> stands for the two calls on \<open>text\<close> and on \<open>remaining\<close> followed by
  \<^verbatim>\<open>return\<close>, and \<open>ExpandAfter\<close> for the calls of the \<^verbatim>\<open>expandafter\<close> branch.
\<close>

definition dispatch2 ::
  "files \<Rightarrow> MacroTable \<Rightarrow> string \<Rightarrow> string \<Rightarrow> string
     \<Rightarrow> (error \<times> string + MacroTable \<times> string) step" where
  "dispatch2 fs table nameBuf p1 out =
     (if nameBuf = ''def'' then
        (case readArg2 p1 of Inl e \<Rightarrow> Return (Inl (e, out)) | Inr (arg1, p2) \<Rightarrow>
        (case readArg2 p2 of Inl e \<Rightarrow> Return (Inl (e, out)) | Inr (arg2, p3) \<Rightarrow>
        (case arg1 of
           None \<Rightarrow> Return (Inl (InvalidMacroName, out))
         | Some name \<Rightarrow>
             if name = [] then Return (Inl (InvalidMacroName, out))
             else if \<not> list_all isalnum name then Return (Inl (InvalidMacroName, out))
             else
               (case define_macro2 table name (case arg2 of None \<Rightarrow> [] | Some v \<Rightarrow> v) of
                  Inl e \<Rightarrow> Return (Inl (e, out))
                | Inr table' \<Rightarrow> Continue table' p3 out))))
      else if nameBuf = ''undef'' then
        (case readArg2 p1 of Inl e \<Rightarrow> Return (Inl (e, out)) | Inr (arg1, p2) \<Rightarrow>
        (case arg1 of
           None \<Rightarrow> Return (Inl (UndefUsage, out))
         | Some name \<Rightarrow>
             (case undef_macro table name of
                Inl e \<Rightarrow> Return (Inl (e, out))
              | Inr table' \<Rightarrow> Continue table' p2 out)))
      else if nameBuf = ''if'' then
        (case readArg2 p1 of Inl e \<Rightarrow> Return (Inl (e, out)) | Inr (condArg, p2) \<Rightarrow>
        (case readArg2 p2 of Inl e \<Rightarrow> Return (Inl (e, out)) | Inr (thenArg, p3) \<Rightarrow>
        (case readArg2 p3 of Inl e \<Rightarrow> Return (Inl (e, out)) | Inr (elseArg, p4) \<Rightarrow>
        (case condArg of None \<Rightarrow> Return (Inl (IfArguments, out)) | Some cond \<Rightarrow>
        (case thenArg of None \<Rightarrow> Return (Inl (IfArguments, out)) | Some thn \<Rightarrow>
        (case elseArg of None \<Rightarrow> Return (Inl (IfArguments, out)) | Some els \<Rightarrow>
         Expand (if cond = [] then els else thn) p4))))))
      else if nameBuf = ''ifdef'' then
        (case readArg2 p1 of Inl e \<Rightarrow> Return (Inl (e, out)) | Inr (nameArg, p2) \<Rightarrow>
        (case readArg2 p2 of Inl e \<Rightarrow> Return (Inl (e, out)) | Inr (thenArg, p3) \<Rightarrow>
        (case readArg2 p3 of Inl e \<Rightarrow> Return (Inl (e, out)) | Inr (elseArg, p4) \<Rightarrow>
        (case nameArg of None \<Rightarrow> Return (Inl (IfdefArguments, out)) | Some name \<Rightarrow>
        (case thenArg of None \<Rightarrow> Return (Inl (IfdefArguments, out)) | Some thn \<Rightarrow>
        (case elseArg of None \<Rightarrow> Return (Inl (IfdefArguments, out)) | Some els \<Rightarrow>
         if \<not> list_all isalnum name then Return (Inl (InvalidIfdefName, out))
         else Expand (if lookup_macro table name \<noteq> None then thn else els) p4))))))
      else if nameBuf = ''include'' then
        (case readArg2 p1 of Inl e \<Rightarrow> Return (Inl (e, out)) | Inr (pathArg, p2) \<Rightarrow>
        (case pathArg of
           None \<Rightarrow> Return (Inl (IncludeArgument, out))
         | Some path \<Rightarrow>
             (case read_included_file fs path of
                Inl e \<Rightarrow> Return (Inl (e, out))
              | Inr includedText \<Rightarrow> Expand includedText p2)))
      else if nameBuf = ''expandafter'' then
        (case readArg2 p1 of Inl e \<Rightarrow> Return (Inl (e, out)) | Inr (beforeArg, p2) \<Rightarrow>
        (case readArg2 p2 of Inl e \<Rightarrow> Return (Inl (e, out)) | Inr (afterArg, p3) \<Rightarrow>
        (case beforeArg of None \<Rightarrow> Return (Inl (ExpandafterArguments, out)) | Some beforeStr \<Rightarrow>
        (case afterArg of None \<Rightarrow> Return (Inl (ExpandafterArguments, out)) | Some afterStr \<Rightarrow>
         ExpandAfter beforeStr afterStr p3))))
      else
        (case lookup_macro table nameBuf of
           None \<Rightarrow> Return (Inl (UndefinedMacro nameBuf, out))
         | Some macroVal \<Rightarrow>
             (case readArg2 p1 of Inl e \<Rightarrow> Return (Inl (e, out)) | Inr (arg1, p2) \<Rightarrow>
             (case arg1 of
                None \<Rightarrow> Return (Inl (NoArgument nameBuf, out))
              | Some arg \<Rightarrow> Expand (substitute macroVal arg) p2))))"

text \<open>The body of one iteration of the loop; \<open>dispatch2\<close> above is its chain of
  \<^verbatim>\<open>strcmp(nameBuf, ...)\<close> tests, entered as soon as the name is read.\<close>

definition expand_step2 ::
  "files \<Rightarrow> MacroTable \<Rightarrow> string \<Rightarrow> string
     \<Rightarrow> (error \<times> string + MacroTable \<times> string) step" where
  "expand_step2 fs table input out =
     (case input of
        [] \<Rightarrow> Return (Inr (table, out))
      | c # p \<Rightarrow>
          if c = BSL then
            (case p of
               [] \<Rightarrow> Return (Inr (table, out @ [BSL]))
             | d # p' \<Rightarrow>
                 if is_special d then Continue table p' (out @ [d])
                 else if isalnum d then
                   (case readMacroName p of (nameBuf, p1) \<Rightarrow>
                      dispatch2 fs table nameBuf p1 out)
                 else Continue table p' (out @ [BSL, d]))
          else Continue table p (out @ [c]))"

text \<open>
  The calls. \<^verbatim>\<open>expand_text_into_string\<close> expands into a fresh \<^verbatim>\<open>OutputBuffer\<close>: the call with
  the sink \<open>[]\<close>; when it exits with a diagnostic, the sink of the enclosing call keeps the
  text it has.
\<close>

partial_function (option) expand_text_impl2 ::
  "files \<Rightarrow> MacroTable \<Rightarrow> string \<Rightarrow> string
     \<Rightarrow> (error \<times> string + MacroTable \<times> string) option" where
  "expand_text_impl2 fs table input out =
     (case expand_step2 fs table input out of
        Return r \<Rightarrow> Some r
      | Continue table' p out' \<Rightarrow> expand_text_impl2 fs table' p out'
      | Expand text remaining \<Rightarrow>
          Option.bind (expand_text_impl2 fs table text out)
            (\<lambda>r. case r of Inl x \<Rightarrow> Some (Inl x)
             | Inr (table', out') \<Rightarrow> expand_text_impl2 fs table' remaining out')
      | ExpandAfter beforeArg afterArg remaining \<Rightarrow>
          Option.bind (expand_text_impl2 fs table afterArg [])
            (\<lambda>r. (case r of Inl (e, buf) \<Rightarrow> Some (Inl (e, out))
             | Inr (table1, expandedAfter) \<Rightarrow>
          Option.bind (expand_text_impl2 fs table1 (beforeArg @ expandedAfter) out)
            (\<lambda>r. (case r of Inl x \<Rightarrow> Some (Inl x)
             | Inr (table2, out') \<Rightarrow> expand_text_impl2 fs table2 remaining out')))))"

declare expand_text_impl2.simps [code]

definition expand_text_into_string ::
  "files \<Rightarrow> MacroTable \<Rightarrow> string \<Rightarrow> (error \<times> string + MacroTable \<times> string) option" where
  "expand_text_into_string fs table input = expand_text_impl2 fs table input []"

definition combine_strings :: "string \<Rightarrow> string \<Rightarrow> string" where
  "combine_strings s1 s2 = s1 @ s2"

section \<open>The top level\<close>

text \<open>\<^verbatim>\<open>read_all_input_and_remove_comments\<close> (the same loops in both variants): standard
  input when no path is given, else the files in order, each stripped of its comments.\<close>

fun read_files :: "files \<Rightarrow> string list \<Rightarrow> error + string" where
  "read_files fs [] = Inr []"
| "read_files fs (path # paths) =
     (case fs path of
        None \<Rightarrow> Inl (FileNotFound path)
      | Some bytes \<Rightarrow>
          (case read_files fs paths of
             Inl e \<Rightarrow> Inl e
           | Inr rest \<Rightarrow> Inr (remove_comments NUL bytes @ rest)))"

definition read_all_input_and_remove_comments ::
  "files \<Rightarrow> string \<Rightarrow> string list \<Rightarrow> error + string" where
  "read_all_input_and_remove_comments fs stdin_bytes paths =
     (if paths = [] then Inr (c_str (remove_comments NUL stdin_bytes))
      else (case read_files fs paths of
              Inl e \<Rightarrow> Inl e
            | Inr buffer \<Rightarrow> Inr (c_str buffer)))"

text \<open>What a run of the process leaves: the text on standard output, the diagnostics
  written to the error stream (one entry per message, its bytes are \<open>stderr_text\<close> below), and
  the exit status.\<close>

record outcome =
  stdout :: string
  stderr :: "error list"
  exit_status :: nat

text \<open>\<^verbatim>\<open>raise_error\<close> of the first variant prints the message and calls \<^verbatim>\<open>exit(0)\<close>; the
  expanded text is still in \<^verbatim>\<open>g_outputBuffer\<close> and is never printed.\<close>

definition raise_error :: "error \<Rightarrow> outcome" where
  "raise_error msg = \<lparr>stdout = [], stderr = [msg], exit_status = 0\<rparr>"

definition parse_and_expand ::
  "files \<Rightarrow> string \<Rightarrow> MacroTable \<Rightarrow> string list \<Rightarrow> outcome option" where
  "parse_and_expand fs stdin_bytes table paths =
     (case read_all_input_and_remove_comments fs stdin_bytes paths of
        Inl e \<Rightarrow> Some (raise_error e)
      | Inr input \<Rightarrow>
          map_option
            (\<lambda>r. case r of
                    Inl e \<Rightarrow> raise_error e
                  | Inr (table', out) \<Rightarrow> \<lparr>stdout = out, stderr = [], exit_status = 0\<rparr>)
            (expand_text_impl fs table input []))"

text \<open>The second variant writes to \<^verbatim>\<open>stdout\<close> as it expands and exits with
  \<^verbatim>\<open>EXIT_FAILURE\<close> after a diagnostic.\<close>

definition parse_and_expand2 ::
  "files \<Rightarrow> string \<Rightarrow> MacroTable \<Rightarrow> string list \<Rightarrow> outcome option" where
  "parse_and_expand2 fs stdin_bytes table paths =
     (case read_all_input_and_remove_comments fs stdin_bytes paths of
        Inl e \<Rightarrow> Some \<lparr>stdout = [], stderr = [e], exit_status = 1\<rparr>
      | Inr input \<Rightarrow>
          map_option
            (\<lambda>r. case r of
                    Inl (e, out) \<Rightarrow> \<lparr>stdout = out, stderr = [e], exit_status = 1\<rparr>
                  | Inr (table', out) \<Rightarrow> \<lparr>stdout = out, stderr = [], exit_status = 0\<rparr>)
            (expand_text_impl2 fs table input []))"

text \<open>\<^verbatim>\<open>main\<close> of either variant, on the paths \<^verbatim>\<open>argv[1..]\<close>.\<close>

definition main :: "files \<Rightarrow> string \<Rightarrow> string list \<Rightarrow> outcome option" where
  "main fs stdin_bytes paths = parse_and_expand fs stdin_bytes init_macro_table paths"

definition main2 :: "files \<Rightarrow> string \<Rightarrow> string list \<Rightarrow> outcome option" where
  "main2 fs stdin_bytes paths = parse_and_expand2 fs stdin_bytes init_macro_table paths"



text \<open>A file system with no file.\<close>

definition no_files :: files where
  "no_files = (\<lambda>path. None)"

section \<open>Unfolding the engine\<close>

lemma expand_text_impl_Nil: "expand_text_impl fs table [] out = Some (Inr (table, out))"
  by (subst expand_text_impl.simps) (simp add: expand_step_def)

lemma expand_text_impl2_Nil: "expand_text_impl2 fs table [] out = Some (Inr (table, out))"
  by (subst expand_text_impl2.simps) (simp add: expand_step2_def)

lemma expand_step_special:
  "is_special c \<Longrightarrow> expand_step fs table (BSL # c # p) out = Continue table p (out @ [c])"
  by (simp add: expand_step_def)

lemma expand_step2_special:
  "is_special c \<Longrightarrow> expand_step2 fs table (BSL # c # p) out = Continue table p (out @ [c])"
  by (simp add: expand_step2_def)

lemma expand_text_impl_special:
  "is_special c \<Longrightarrow>
     expand_text_impl fs table (BSL # c # p) out = expand_text_impl fs table p (out @ [c])"
  by (subst expand_text_impl.simps) (simp add: expand_step_special)

lemma expand_text_impl2_special:
  "is_special c \<Longrightarrow>
     expand_text_impl2 fs table (BSL # c # p) out = expand_text_impl2 fs table p (out @ [c])"
  by (subst expand_text_impl2.simps) (simp add: expand_step2_special)

lemma read_stdin_escape:
  "is_special c \<Longrightarrow> read_all_input_and_remove_comments fs [BSL, c] [] = Inr [BSL, c]"
  by (auto simp: read_all_input_and_remove_comments_def c_str_def is_special_def)

section \<open>Escapes\<close>

text \<open>
  Claim C8. For each character \<open>c\<close> of the escape alphabet (backslash, the two braces, \<open>#\<close>
  and \<open>%\<close>), expanding the two-character input made of a backslash and \<open>c\<close> emits exactly
  the character \<open>c\<close>: the engine of either variant appends \<open>c\<close> and nothing else to its sink
  and leaves the table as it is, and a whole run on that input prints \<open>c\<close> and no diagnostic.
\<close>

theorem escape_pair_emits_char:
  assumes "c \<in> {BSL, CHR ''{'', CHR ''}'', CHR ''#'', CHR ''%''}"
  shows "expand_text_impl fs table [BSL, c] out = Some (Inr (table, out @ [c])) \<and>
         expand_text_impl2 fs table [BSL, c] out = Some (Inr (table, out @ [c])) \<and>
         main fs [BSL, c] [] = Some \<lparr>stdout = [c], stderr = [], exit_status = 0\<rparr> \<and>
         main2 fs [BSL, c] [] = Some \<lparr>stdout = [c], stderr = [], exit_status = 0\<rparr>"
proof -
  from assms have sp: "is_special c" by (auto simp: is_special_def)
  have a: "expand_text_impl fs table [BSL, c] out = Some (Inr (table, out @ [c]))" for table out
    by (simp add: expand_text_impl_special [OF sp] expand_text_impl_Nil)
  have b: "expand_text_impl2 fs table [BSL, c] out = Some (Inr (table, out @ [c]))" for table out
    by (simp add: expand_text_impl2_special [OF sp] expand_text_impl2_Nil)
  show ?thesis
    by (simp add: a b main_def main2_def parse_and_expand_def parse_and_expand2_def
        read_stdin_escape [OF sp])
qed

theorem escape_pair_emits_char_witness:
  "main (\<lambda>_. None) [BSL, CHR ''%''] [] = Some \<lparr>stdout = ''%'', stderr = [], exit_status = 0\<rparr> \<and>
   main2 (\<lambda>_. None) [BSL, BSL] [] = Some \<lparr>stdout = [BSL], stderr = [], exit_status = 0\<rparr>"
  using escape_pair_emits_char [of "CHR ''%''" "\<lambda>_. None" "[]" "[]"]
    escape_pair_emits_char [of BSL "\<lambda>_. None" "[]" "[]"]
  by simp

section \<open>The argument reader against the spec's depth counter\<close>

lemma isspace_not_isalnum: "isspace c \<Longrightarrow> \<not> isalnum c"
  by (auto simp: isspace_def isalnum_def Let_def)

lemma skip_spaces_idem: "skip_spaces (skip_spaces p) = skip_spaces p"
  by (simp add: skip_spaces_def dropWhile_idem)

lemma readArg_skip_spaces: "readArg (skip_spaces p) = readArg p"
  by (simp add: readArg_def skip_spaces_idem)

lemma readArg2_skip_spaces: "readArg2 (skip_spaces p) = readArg2 p"
  by (simp add: readArg2_def skip_spaces_idem)

lemma readArg_loop2_zero: "readArg_loop2 0 esc buf s = (0, buf, s)"
  by (cases s) simp_all

lemma readArg_loop2_unbalanced:
  "0 < d \<Longrightarrow> \<forall>n\<le>length s. spec_depth d esc (take n s) \<noteq> 0 \<Longrightarrow>
     fst (readArg_loop2 d esc buf s) \<noteq> 0"
proof (induction s arbitrary: d esc buf)
  case Nil
  then show ?case by simp
next
  case (Cons c s)
  have tl: "spec_depth d esc (c # take m s) \<noteq> 0" if "m \<le> length s" for m
    using Cons.prems(2) [rule_format, of "Suc m"] that by simp
  obtain d1 e1 buf1 where
    step: "readArg_loop2 d esc buf (c # s) = readArg_loop2 d1 e1 buf1 s" and
    spec: "\<And>q. spec_depth d esc (c # q) = spec_depth d1 e1 q" and
    lo: "d - 1 \<le> d1"
    using Cons.prems(1) by (cases esc; cases "c = BSL"; cases "c = CHR ''{''"; cases "c = CHR ''}''") auto
  from tl [of 0] spec [of "[]"] have "d1 \<noteq> 0" by simp
  with lo Cons.prems(1) have "0 < d1" by simp
  moreover have "\<forall>n\<le>length s. spec_depth d1 e1 (take n s) \<noteq> 0"
    using tl spec by simp
  ultimately have "fst (readArg_loop2 d1 e1 buf1 s) \<noteq> 0" by (rule Cons.IH)
  with step show ?case by simp
qed

lemma readArg_loop2_closed:
  "0 < d \<Longrightarrow> readArg_loop2 d esc buf s = (0, buf', rest) \<Longrightarrow>
     \<exists>mid. s = mid @ CHR ''}'' # rest \<and> buf' = buf @ mid \<and>
           spec_depth d esc (mid @ [CHR ''}'']) = 0 \<and>
           (\<forall>n\<le>length mid. spec_depth d esc (take n mid) \<noteq> 0)"
proof (induction s arbitrary: d esc buf)
  case Nil
  then show ?case by simp
next
  case (Cons c s)
  show ?case
  proof (cases "\<not> esc \<and> c = CHR ''}'' \<and> d = 1")
    case True
    with Cons.prems have "buf' = buf" "rest = s"
      by (simp_all add: readArg_loop2_zero)
    with True show ?thesis by (intro exI [of _ "[]"]) simp
  next
    case False
    obtain d1 e1 where
      step: "readArg_loop2 d esc buf (c # s) = readArg_loop2 d1 e1 (buf @ [c]) s" and
      spec: "\<And>q. spec_depth d esc (c # q) = spec_depth d1 e1 q" and
      pos: "0 < d1"
      using Cons.prems(1) False
      by (cases esc; cases "c = BSL"; cases "c = CHR ''{''"; cases "c = CHR ''}''") auto
    from step Cons.prems(2) have "readArg_loop2 d1 e1 (buf @ [c]) s = (0, buf', rest)" by simp
    from Cons.IH [OF pos this] obtain mid where
      mid: "s = mid @ CHR ''}'' # rest" "buf' = (buf @ [c]) @ mid"
        "spec_depth d1 e1 (mid @ [CHR ''}'']) = 0"
        "\<forall>n\<le>length mid. spec_depth d1 e1 (take n mid) \<noteq> 0"
      by blast
    have "\<forall>n\<le>length (c # mid). spec_depth d esc (take n (c # mid)) \<noteq> 0"
    proof (intro allI impI)
      fix n assume "n \<le> length (c # mid)"
      then show "spec_depth d esc (take n (c # mid)) \<noteq> 0"
        using mid(4) spec Cons.prems(1) by (cases n) auto
    qed
    with mid spec show ?thesis by (intro exI [of _ "c # mid"]) simp
  qed
qed

lemma readArg_loop_unbalanced:
  "0 < d \<Longrightarrow> \<forall>n\<le>length s. spec_depth d (k mod 2 = 1) (take n s) \<noteq> 0 \<Longrightarrow>
     fst (readArg_loop d k buf s) \<noteq> 0"
proof (induction s arbitrary: d k buf)
  case Nil
  then show ?case by simp
next
  case (Cons c s)
  have tl: "spec_depth d (k mod 2 = 1) (c # take m s) \<noteq> 0" if "m \<le> length s" for m
    using Cons.prems(2) [rule_format, of "Suc m"] that by simp
  have par: "((k + 1) mod 2 = 1) = (k mod 2 \<noteq> 1)" by presburger
  obtain d1 k1 buf1 where
    step: "d1 \<noteq> 0 \<Longrightarrow> readArg_loop d k buf (c # s) = readArg_loop d1 k1 buf1 s" and
    spec: "\<And>q. spec_depth d (k mod 2 = 1) (c # q) = spec_depth d1 (k1 mod 2 = 1) q" and
    lo: "d - 1 \<le> d1"
  proof (cases "k mod 2 \<noteq> 1 \<and> c = CHR ''}''")
    case True
    have "d - 1 \<noteq> 0 \<Longrightarrow>
        readArg_loop d k buf (c # s) = readArg_loop (d - 1) 0 (buf @ [c]) s"
      using True Cons.prems(1) by (auto simp: Let_def)
    moreover have "\<And>q. spec_depth d (k mod 2 = 1) (c # q) = spec_depth (d - 1) ((0::int) mod 2 = 1) q"
      using True by simp
    ultimately show ?thesis using that [of "d - 1" 0 "buf @ [c]"] by simp
  next
    case False
    then show ?thesis
      using Cons.prems(1) par that
      by (cases "k mod 2 = 1"; cases "c = BSL"; cases "c = CHR ''{''"; cases "c = CHR ''}''")
        (auto simp: Let_def)
  qed
  from tl [of 0] spec [of "[]"] have "d1 \<noteq> 0" by simp
  with lo Cons.prems(1) have "0 < d1" by simp
  moreover have "\<forall>n\<le>length s. spec_depth d1 (k1 mod 2 = 1) (take n s) \<noteq> 0"
    using tl spec by simp
  ultimately have "fst (readArg_loop d1 k1 buf1 s) \<noteq> 0" by (rule Cons.IH)
  with step \<open>d1 \<noteq> 0\<close> show ?case by simp
qed

lemma readArg_loop_closed:
  "0 < d \<Longrightarrow> readArg_loop d k buf s = (0, buf', rest) \<Longrightarrow>
     \<exists>mid. s = mid @ CHR ''}'' # rest \<and> buf' = buf @ mid \<and>
           spec_depth d (k mod 2 = 1) (mid @ [CHR ''}'']) = 0 \<and>
           (\<forall>n\<le>length mid. spec_depth d (k mod 2 = 1) (take n mid) \<noteq> 0)"
proof (induction s arbitrary: d k buf)
  case Nil
  then show ?case by simp
next
  case (Cons c s)
  have par: "((k + 1) mod 2 = 1) = (k mod 2 \<noteq> 1)" by presburger
  show ?case
  proof (cases "k mod 2 \<noteq> 1 \<and> c = CHR ''}'' \<and> d = 1")
    case True
    with Cons.prems have "buf' = buf" "rest = s" by (simp_all add: Let_def)
    with True show ?thesis by (intro exI [of _ "[]"]) simp
  next
    case False
    obtain d1 k1 where
      step: "readArg_loop d k buf (c # s) = readArg_loop d1 k1 (buf @ [c]) s" and
      spec: "\<And>q. spec_depth d (k mod 2 = 1) (c # q) = spec_depth d1 (k1 mod 2 = 1) q" and
      pos: "0 < d1"
      using Cons.prems(1) False par
      by (cases "k mod 2 = 1"; cases "c = BSL"; cases "c = CHR ''{''"; cases "c = CHR ''}''")
        (auto simp: Let_def)
    from step Cons.prems(2) have "readArg_loop d1 k1 (buf @ [c]) s = (0, buf', rest)" by simp
    from Cons.IH [OF pos this] obtain mid where
      mid: "s = mid @ CHR ''}'' # rest" "buf' = (buf @ [c]) @ mid"
        "spec_depth d1 (k1 mod 2 = 1) (mid @ [CHR ''}'']) = 0"
        "\<forall>n\<le>length mid. spec_depth d1 (k1 mod 2 = 1) (take n mid) \<noteq> 0"
      by blast
    have "\<forall>n\<le>length (c # mid). spec_depth d (k mod 2 = 1) (take n (c # mid)) \<noteq> 0"
    proof (intro allI impI)
      fix n assume "n \<le> length (c # mid)"
      then show "spec_depth d (k mod 2 = 1) (take n (c # mid)) \<noteq> 0"
        using mid(4) spec Cons.prems(1) by (cases n) auto
    qed
    with mid spec show ?thesis by (intro exI [of _ "c # mid"]) simp
  qed
qed


lemma readArg_loop_parity: "readArg_loop d (k + 2) buf s = readArg_loop d k buf s"
proof (induction s arbitrary: d k buf)
  case Nil
  then show ?case by simp
next
  case (Cons c s)
  have "readArg_loop d (k + 2 + 1) (buf @ [c]) s = readArg_loop d (k + 1) (buf @ [c]) s"
    using Cons.IH [of d "k + 1" "buf @ [c]"] by (simp add: add.commute add.left_commute)
  moreover have "((k + 2) mod 2 = 1) = (k mod 2 = 1)" by presburger
  ultimately show ?case by (auto simp: Let_def)
qed

lemma readArg_loop_escape:
  "0 < d \<Longrightarrow> readArg_loop d 0 buf (BSL # c # s) = readArg_loop d 0 (buf @ [BSL, c]) s"
  using readArg_loop_parity [of d 0 "buf @ [BSL, BSL]" s] by (simp add: Let_def)

lemma readArg_loop2_escape:
  "0 < d \<Longrightarrow> readArg_loop2 d False buf (BSL # c # s) = readArg_loop2 d False (buf @ [BSL, c]) s"
  by simp

lemma readArg_Inr:
  assumes "readArg p = Inr (arg, rest)"
  shows "skip_spaces p = CHR ''{'' # arg @ CHR ''}'' # rest \<and>
         spec_depth 1 False (arg @ [CHR ''}'']) = 0 \<and>
         (\<forall>n\<le>length arg. spec_depth 1 False (take n arg) \<noteq> 0)"
proof -
  from assms obtain s where s: "skip_spaces p = CHR ''{'' # s"
    and l: "readArg_loop 1 0 [] s = (0, arg, rest)"
    by (auto simp: readArg_def split: list.splits if_splits prod.splits)
  from readArg_loop_closed [OF _ l] s show ?thesis by auto
qed

lemma readArg2_Inr:
  assumes "readArg2 p = Inr (Some arg, rest)"
  shows "skip_spaces p = CHR ''{'' # arg @ CHR ''}'' # rest \<and>
         spec_depth 1 False (arg @ [CHR ''}'']) = 0 \<and>
         (\<forall>n\<le>length arg. spec_depth 1 False (take n arg) \<noteq> 0)"
proof -
  from assms obtain s where s: "skip_spaces p = CHR ''{'' # s"
    and l: "readArg_loop2 1 False [] s = (0, arg, rest)"
    by (auto simp: readArg2_def split: list.splits if_splits prod.splits)
  from readArg_loop2_closed [OF _ l] s show ?thesis by auto
qed

lemma run_def_unbalanced:
  "main fs (BSL # ''def{A}{x'') [] = Some \<lparr>stdout = [], stderr = [UnbalancedBraces], exit_status = 0\<rparr>"
  by code_simp

lemma run2_def_unbalanced:
  "main2 fs (BSL # ''def{A}{x'') [] = Some \<lparr>stdout = [], stderr = [UnbalancedBraces], exit_status = 1\<rparr>"
  by code_simp

text \<open>
  Claim C9. Whenever the Argument Reader exhausts the input before its brace-depth counter
  returns to 0, it fails with \<open>UnbalancedBraces\<close>, and it returns a captured argument in no
  other way than with the counter back at 0. With \<open>s\<close> the text after the opening brace: if
  the depth counter of the spec, started at 1, is not 0 after any prefix of \<open>s\<close>, then
  \<^verbatim>\<open>readArg\<close> of either variant fails with \<open>UnbalancedBraces\<close>; an argument that is returned
  brings the counter to 0 with its closing brace. In particular a run on the input
  \<^verbatim>\<open>\def{A}{x\<close> prints the \<open>UnbalancedBraces\<close> diagnostic and nothing else.
\<close>

theorem readArg_unbalanced_braces:
  "(skip_spaces p = CHR ''{'' # s \<and> (\<forall>n\<le>length s. spec_depth 1 False (take n s) \<noteq> 0)
      \<longrightarrow> readArg p = Inl UnbalancedBraces \<and> readArg2 p = Inl UnbalancedBraces) \<and>
   (readArg p = Inr (arg, rest) \<longrightarrow> spec_depth 1 False (arg @ [CHR ''}'']) = 0) \<and>
   (readArg2 p = Inr (Some arg, rest) \<longrightarrow> spec_depth 1 False (arg @ [CHR ''}'']) = 0) \<and>
   main fs (BSL # ''def{A}{x'') [] =
     Some \<lparr>stdout = [], stderr = [UnbalancedBraces], exit_status = 0\<rparr> \<and>
   main2 fs (BSL # ''def{A}{x'') [] =
     Some \<lparr>stdout = [], stderr = [UnbalancedBraces], exit_status = 1\<rparr>"
proof -
  have "readArg p = Inl UnbalancedBraces \<and> readArg2 p = Inl UnbalancedBraces"
    if s: "skip_spaces p = CHR ''{'' # s"
      and u: "\<forall>n\<le>length s. spec_depth 1 False (take n s) \<noteq> 0"
  proof -
    have "fst (readArg_loop 1 0 [] s) \<noteq> 0"
      using readArg_loop_unbalanced [of 1 s 0 "[]"] u by simp
    moreover have "fst (readArg_loop2 1 False [] s) \<noteq> 0"
      using readArg_loop2_unbalanced [of 1 s False "[]"] u by simp
    ultimately show ?thesis
      using s by (auto simp: readArg_def readArg2_def split: prod.splits)
  qed
  then show ?thesis
    using readArg_Inr [of p arg rest] readArg2_Inr [of p arg rest]
      run_def_unbalanced [of fs] run2_def_unbalanced [of fs]
    by blast
qed

theorem readArg_unbalanced_braces_witness:
  "readArg ''{x'' = Inl UnbalancedBraces \<and> readArg2 ''{x'' = Inl UnbalancedBraces \<and>
   readArg ''{a}b'' = Inr (''a'', ''b'') \<and> spec_depth 1 False ''a}'' = 0 \<and>
   readArg2 ''{a}b'' = Inr (Some ''a'', ''b'')"
  using readArg_unbalanced_braces [of "''{x''" "''x''" "[]" "[]" "\<lambda>_. None"]
    readArg_unbalanced_braces [of "''{a}b''" "[]" "''a''" "''b''" "\<lambda>_. None"]
  by (simp add: skip_spaces_def isspace_def readArg_def readArg2_def le_Suc_eq)

lemma readArg_loop2_complete:
  "0 < d \<Longrightarrow> spec_depth d esc (mid @ [CHR ''}'']) = 0 \<Longrightarrow>
     \<forall>n\<le>length mid. spec_depth d esc (take n mid) \<noteq> 0 \<Longrightarrow>
     readArg_loop2 d esc buf (mid @ CHR ''}'' # rest) = (0, buf @ mid, rest)"
proof (induction mid arbitrary: d esc buf)
  case Nil
  then have "\<not> esc" "d = 1" by (auto split: if_splits)
  then show ?case by (simp add: readArg_loop2_zero)
next
  case (Cons c mid)
  have tl: "spec_depth d esc (c # take m mid) \<noteq> 0" if "m \<le> length mid" for m
    using Cons.prems(3) [rule_format, of "Suc m"] that by simp
  obtain d1 e1 where
    step: "d1 \<noteq> 0 \<Longrightarrow> readArg_loop2 d esc buf (c # q) = readArg_loop2 d1 e1 (buf @ [c]) q" and
    spec: "spec_depth d esc (c # q') = spec_depth d1 e1 q'" and
    lo: "d - 1 \<le> d1" for q q'
  proof (cases "\<not> esc \<and> c = CHR ''}''")
    case True
    have "d - 1 \<noteq> 0 \<Longrightarrow>
        readArg_loop2 d esc buf (c # q) = readArg_loop2 (d - 1) False (buf @ [c]) q" for q
      using True Cons.prems(1) by auto
    moreover have "spec_depth d esc (c # q') = spec_depth (d - 1) False q'" for q'
      using True by simp
    ultimately show ?thesis using that [of "d - 1" False] by simp
  next
    case False
    then show ?thesis
      using Cons.prems(1) that
      by (cases esc; cases "c = BSL"; cases "c = CHR ''{''"; cases "c = CHR ''}''") auto
  qed
  from tl [of 0] spec [of "[]"] have "d1 \<noteq> 0" by simp
  with lo Cons.prems(1) have pos: "0 < d1" by simp
  have "readArg_loop2 d1 e1 (buf @ [c]) (mid @ CHR ''}'' # rest) = (0, (buf @ [c]) @ mid, rest)"
  proof (rule Cons.IH [OF pos])
    show "spec_depth d1 e1 (mid @ [CHR ''}'']) = 0"
      using Cons.prems(2) spec [of "mid @ [CHR ''}'']"] by simp
    show "\<forall>n\<le>length mid. spec_depth d1 e1 (take n mid) \<noteq> 0"
      using tl spec by simp
  qed
  with step [OF \<open>d1 \<noteq> 0\<close>, of "mid @ CHR ''}'' # rest"] show ?case by simp
qed

lemma readArg_loop_complete:
  "0 < d \<Longrightarrow> spec_depth d (k mod 2 = 1) (mid @ [CHR ''}'']) = 0 \<Longrightarrow>
     \<forall>n\<le>length mid. spec_depth d (k mod 2 = 1) (take n mid) \<noteq> 0 \<Longrightarrow>
     readArg_loop d k buf (mid @ CHR ''}'' # rest) = (0, buf @ mid, rest)"
proof (induction mid arbitrary: d k buf)
  case Nil
  then have "k mod 2 \<noteq> 1" "d = 1" by (auto split: if_splits)
  then show ?case by (simp add: Let_def)
next
  case (Cons c mid)
  have par: "((k + 1) mod 2 = 1) = (k mod 2 \<noteq> 1)" by presburger
  have tl: "spec_depth d (k mod 2 = 1) (c # take m mid) \<noteq> 0" if "m \<le> length mid" for m
    using Cons.prems(3) [rule_format, of "Suc m"] that by simp
  obtain d1 k1 where
    step: "d1 \<noteq> 0 \<Longrightarrow> readArg_loop d k buf (c # q) = readArg_loop d1 k1 (buf @ [c]) q" and
    spec: "spec_depth d (k mod 2 = 1) (c # q') = spec_depth d1 (k1 mod 2 = 1) q'" and
    lo: "d - 1 \<le> d1" for q q'
  proof (cases "k mod 2 \<noteq> 1 \<and> c = CHR ''}''")
    case True
    have "d - 1 \<noteq> 0 \<Longrightarrow>
        readArg_loop d k buf (c # q) = readArg_loop (d - 1) 0 (buf @ [c]) q" for q
      using True Cons.prems(1) by (auto simp: Let_def)
    moreover have "spec_depth d (k mod 2 = 1) (c # q') = spec_depth (d - 1) ((0::int) mod 2 = 1) q'"
      for q'
      using True by simp
    ultimately show ?thesis using that [of "d - 1" 0] by simp
  next
    case False
    then show ?thesis
      using Cons.prems(1) par that
      by (cases "k mod 2 = 1"; cases "c = BSL"; cases "c = CHR ''{''"; cases "c = CHR ''}''")
        (auto simp: Let_def)
  qed
  from tl [of 0] spec [of "[]"] have "d1 \<noteq> 0" by simp
  with lo Cons.prems(1) have pos: "0 < d1" by simp
  have "readArg_loop d1 k1 (buf @ [c]) (mid @ CHR ''}'' # rest) = (0, (buf @ [c]) @ mid, rest)"
  proof (rule Cons.IH [OF pos])
    show "spec_depth d1 (k1 mod 2 = 1) (mid @ [CHR ''}'']) = 0"
      using Cons.prems(2) spec [of "mid @ [CHR ''}'']"] by simp
    show "\<forall>n\<le>length mid. spec_depth d1 (k1 mod 2 = 1) (take n mid) \<noteq> 0"
      using tl spec by simp
  qed
  with step [OF \<open>d1 \<noteq> 0\<close>, of "mid @ CHR ''}'' # rest"] show ?case by simp
qed

lemma readArg_complete:
  assumes "skip_spaces p = CHR ''{'' # arg @ CHR ''}'' # rest"
    "spec_depth 1 False (arg @ [CHR ''}'']) = 0"
    "\<forall>n\<le>length arg. spec_depth 1 False (take n arg) \<noteq> 0"
  shows "readArg p = Inr (arg, rest)" "readArg2 p = Inr (Some arg, rest)"
proof -
  have "readArg_loop 1 0 [] (arg @ CHR ''}'' # rest) = (0, [] @ arg, rest)"
    by (rule readArg_loop_complete) (use assms in simp_all)
  with assms(1) show "readArg p = Inr (arg, rest)" by (simp add: readArg_def)
  have "readArg_loop2 1 False [] (arg @ CHR ''}'' # rest) = (0, [] @ arg, rest)"
    by (rule readArg_loop2_complete) (use assms in simp_all)
  with assms(1) show "readArg2 p = Inr (Some arg, rest)" by (simp add: readArg2_def)
qed

text \<open>
  Claim C10. For every argument that the Argument Reader captures, in either variant: the
  captured text is the input between the opening brace and the final matching closing brace,
  character for character, so every backslash escape between the braces is in it with its
  backslash; the matching brace is the one at which the depth counter of the spec, started
  at 1, returns to 0 for the first time; that closing brace is consumed and is not part of
  the captured text; and a backslash with the character after it goes through the loop
  leaving the depth as it was, whatever the character is, both appended to the buffer. The
  reader returns an argument exactly in this case.
\<close>

theorem readArg_keeps_escapes:
  "(readArg p = Inr (arg, rest) \<longleftrightarrow>
      skip_spaces p = CHR ''{'' # arg @ CHR ''}'' # rest \<and>
      spec_depth 1 False (arg @ [CHR ''}'']) = 0 \<and>
      (\<forall>n\<le>length arg. spec_depth 1 False (take n arg) \<noteq> 0)) \<and>
   (readArg2 p = Inr (Some arg, rest) \<longleftrightarrow>
      skip_spaces p = CHR ''{'' # arg @ CHR ''}'' # rest \<and>
      spec_depth 1 False (arg @ [CHR ''}'']) = 0 \<and>
      (\<forall>n\<le>length arg. spec_depth 1 False (take n arg) \<noteq> 0)) \<and>
   (0 < d \<longrightarrow>
      readArg_loop d 0 buf (BSL # c # s) = readArg_loop d 0 (buf @ [BSL, c]) s) \<and>
   (0 < d \<longrightarrow>
      readArg_loop2 d False buf (BSL # c # s) = readArg_loop2 d False (buf @ [BSL, c]) s)"
  using readArg_Inr [of p arg rest] readArg2_Inr [of p arg rest]
    readArg_complete [of p arg rest]
    readArg_loop_escape [of d buf c s] readArg_loop2_escape [of d buf c s]
  by blast

theorem readArg_keeps_escapes_witness:
  "readArg (''{a'' @ [BSL] @ ''}{b}c}d'') = Inr (''a'' @ [BSL] @ ''}{b}c'', ''d'') \<and>
   readArg2 (''{a'' @ [BSL] @ ''}{b}c}d'') = Inr (Some (''a'' @ [BSL] @ ''}{b}c''), ''d'') \<and>
   spec_depth 1 False ((''a'' @ [BSL] @ ''}{b}c'') @ [CHR ''}'']) = 0 \<and>
   readArg ''{a{b}c}d'' = Inr (''a{b}c'', ''d'') \<and>
   readArg2 ''{a{b}c}d'' = Inr (Some ''a{b}c'', ''d'') \<and>
   readArg ''{a{b}c}d'' \<noteq> Inr (''a{b'', ''c}d'') \<and>
   readArg_loop 1 0 [] (BSL # CHR ''}'' # ''b}c'') = readArg_loop 1 0 ([] @ [BSL, CHR ''}'']) ''b}c'' \<and>
   readArg_loop2 1 False [] (BSL # CHR ''}'' # ''b}c'') = readArg_loop2 1 False ([] @ [BSL, CHR ''}'']) ''b}c''"
proof -
  have e: "readArg (''{a'' @ [BSL] @ ''}{b}c}d'') = Inr (''a'' @ [BSL] @ ''}{b}c'', ''d'')"
    "readArg2 (''{a'' @ [BSL] @ ''}{b}c}d'') = Inr (Some (''a'' @ [BSL] @ ''}{b}c''), ''d'')"
    "readArg ''{a{b}c}d'' = Inr (''a{b}c'', ''d'')"
    "readArg2 ''{a{b}c}d'' = Inr (Some ''a{b}c'', ''d'')"
    by code_simp+
  have s: "spec_depth 1 False ''a{b}'' \<noteq> 0" by simp
  show ?thesis
    using readArg_keeps_escapes [of "''{a'' @ [BSL] @ ''}{b}c}d''" "''a'' @ [BSL] @ ''}{b}c''" "''d''" 1
      "[]" "CHR ''}''" "''b}c''"]
      readArg_keeps_escapes [of "''{a{b}c}d''" "''a{b''" "''c}d''" 1 "[]" "CHR ''}''" "''b}c''"]
      e s
    by simp
qed

section \<open>Invocations\<close>

lemma not_special_isalnum: "isalnum c \<Longrightarrow> \<not> is_special c"
  by (auto simp: isalnum_def is_special_def)

lemma brace_not_isalnum: "\<not> isalnum (CHR ''{'')"
  by (simp add: isalnum_def)

lemma brace_not_isspace: "\<not> isspace (CHR ''{'')"
  by (simp add: isspace_def)

lemma name_run:
  "list_all isalnum name \<Longrightarrow> p = [] \<or> \<not> isalnum (hd p) \<Longrightarrow>
     takeWhile isalnum (name @ p) = name \<and> dropWhile isalnum (name @ p) = p"
  by (cases p) (auto simp: list_all_iff takeWhile_append2 dropWhile_append3 intro: takeWhile_eq_all_conv [THEN iffD2])

lemma expand_step_name:
  assumes "name \<noteq> []" "list_all isalnum name" "p = [] \<or> \<not> isalnum (hd p)"
  shows "expand_step fs table (BSL # name @ p) out =
           (if (case skip_spaces p of [] \<Rightarrow> True | b # _ \<Rightarrow> b \<noteq> CHR ''{'')
            then Continue table (skip_spaces p) (out @ BSL # name)
            else dispatch fs table name (skip_spaces p) out)"
proof -
  from assms(1) obtain d n where n: "name = d # n" by (cases name) auto
  with assms(2) have d: "isalnum d" "\<not> is_special d" by (auto simp: not_special_isalnum)
  from name_run [OF assms(2,3)] d show ?thesis
    by (simp add: expand_step_def Let_def n)
qed

lemma expand_step2_name:
  assumes "name \<noteq> []" "list_all isalnum name" "p = [] \<or> \<not> isalnum (hd p)"
  shows "expand_step2 fs table (BSL # name @ p) out = dispatch2 fs table name p out"
proof -
  from assms(1) obtain d n where n: "name = d # n" by (cases name) auto
  with assms(2) have d: "isalnum d" "\<not> is_special d" by (auto simp: not_special_isalnum)
  from name_run [OF assms(2,3)] d show ?thesis
    by (simp add: expand_step2_def readMacroName_def n)
qed

lemma readArg_Inr_head:
  "readArg p = Inr x \<Longrightarrow> \<exists>q. skip_spaces p = CHR ''{'' # q"
  by (auto simp: readArg_def split: list.splits if_splits)

lemma readArg2_Some_head:
  "readArg2 p = Inr (Some a, r) \<Longrightarrow> \<exists>q. skip_spaces p = CHR ''{'' # q"
  by (auto simp: readArg2_def split: list.splits if_splits prod.splits)

lemma skip_spaces_head_not_isalnum:
  "skip_spaces p = CHR ''{'' # q \<Longrightarrow> p = [] \<or> \<not> isalnum (hd p)"
  by (cases p) (auto simp: skip_spaces_def isspace_not_isalnum brace_not_isalnum split: if_splits)

text \<open>An invocation in the first variant: the name, then an argument that \<open>readArg\<close> reads.\<close>

lemma expand_step_invocation:
  assumes "name \<noteq> []" "list_all isalnum name" "readArg p = Inr x"
  shows "expand_step fs table (BSL # name @ p) out = dispatch fs table name (skip_spaces p) out"
proof -
  from readArg_Inr_head [OF assms(3)] obtain q where q: "skip_spaces p = CHR ''{'' # q" ..
  from expand_step_name [OF assms(1,2) skip_spaces_head_not_isalnum [OF q]] q
  show ?thesis by simp
qed

lemma expand_step2_invocation:
  assumes "name \<noteq> []" "list_all isalnum name" "readArg2 p = Inr (Some a, r)"
  shows "expand_step2 fs table (BSL # name @ p) out = dispatch2 fs table name p out"
proof -
  from readArg2_Some_head [OF assms(3)] obtain q where q: "skip_spaces p = CHR ''{'' # q" ..
  from expand_step2_name [OF assms(1,2) skip_spaces_head_not_isalnum [OF q]]
  show ?thesis by simp
qed

lemma expand_step_if:
  assumes "readArg p1 = Inr (condArg, p2)" "readArg p2 = Inr (thenArg, p3)"
    "readArg p3 = Inr (elseArg, p4)"
  shows "expand_step fs table (BSL # ''if'' @ p1) out =
           Expand (if condArg = [] then elseArg else thenArg) p4"
proof -
  have "expand_step fs table (BSL # ''if'' @ p1) out = dispatch fs table ''if'' (skip_spaces p1) out"
    by (rule expand_step_invocation [OF _ _ assms(1)]) (simp_all add: isalnum_def)
  then show ?thesis
    using assms by (simp add: dispatch_def readArg_skip_spaces)
qed

lemma expand_step2_if:
  assumes "readArg2 p1 = Inr (Some condArg, p2)" "readArg2 p2 = Inr (Some thenArg, p3)"
    "readArg2 p3 = Inr (Some elseArg, p4)"
  shows "expand_step2 fs table (BSL # ''if'' @ p1) out =
           Expand (if condArg = [] then elseArg else thenArg) p4"
proof -
  have "expand_step2 fs table (BSL # ''if'' @ p1) out = dispatch2 fs table ''if'' p1 out"
    by (rule expand_step2_invocation [OF _ _ assms(1)]) (simp_all add: isalnum_def)
  then show ?thesis
    using assms by (simp add: dispatch2_def)
qed

lemma expand_step_expandafter:
  assumes "readArg p1 = Inr (beforeArg, p2)" "readArg p2 = Inr (afterArg, p3)"
  shows "expand_step fs table (BSL # ''expandafter'' @ p1) out = ExpandAfter beforeArg afterArg p3"
proof -
  have "expand_step fs table (BSL # ''expandafter'' @ p1) out =
      dispatch fs table ''expandafter'' (skip_spaces p1) out"
    by (rule expand_step_invocation [OF _ _ assms(1)]) (simp_all add: isalnum_def)
  then show ?thesis
    using assms by (simp add: dispatch_def readArg_skip_spaces)
qed

lemma expand_step2_expandafter:
  assumes "readArg2 p1 = Inr (Some beforeArg, p2)" "readArg2 p2 = Inr (Some afterArg, p3)"
  shows "expand_step2 fs table (BSL # ''expandafter'' @ p1) out = ExpandAfter beforeArg afterArg p3"
proof -
  have "expand_step2 fs table (BSL # ''expandafter'' @ p1) out =
      dispatch2 fs table ''expandafter'' p1 out"
    by (rule expand_step2_invocation [OF _ _ assms(1)]) (simp_all add: isalnum_def)
  then show ?thesis
    using assms by (simp add: dispatch2_def)
qed

section \<open>The conditional\<close>

lemma run_if_empty:
  "main fs (BSL # ''if{}{T}{E}'') [] = Some \<lparr>stdout = ''E'', stderr = [], exit_status = 0\<rparr>"
  by code_simp

lemma run_if_nonempty:
  "main fs (BSL # ''if{x}{T}{E}'') [] = Some \<lparr>stdout = ''T'', stderr = [], exit_status = 0\<rparr>"
  by code_simp

lemma run_if_raw_cond:
  "main fs (BSL # ''if{'' @ BSL # ''Unknown{x}}{T}{E}'') [] =
     Some \<lparr>stdout = ''T'', stderr = [], exit_status = 0\<rparr>"
  by code_simp

lemma run2_if_empty:
  "main2 fs (BSL # ''if{}{T}{E}'') [] = Some \<lparr>stdout = ''E'', stderr = [], exit_status = 0\<rparr>"
  by code_simp

lemma run2_if_nonempty:
  "main2 fs (BSL # ''if{x}{T}{E}'') [] = Some \<lparr>stdout = ''T'', stderr = [], exit_status = 0\<rparr>"
  by code_simp

lemma run2_if_raw_cond:
  "main2 fs (BSL # ''if{'' @ BSL # ''Unknown{x}}{T}{E}'') [] =
     Some \<lparr>stdout = ''T'', stderr = [], exit_status = 0\<rparr>"
  by code_simp

text \<open>
  Claim C7. For every invocation \<^verbatim>\<open>\if{COND}{THEN}{ELSE}\<close> the three arguments are read raw
  by the Argument Reader, \<open>COND\<close> is only compared with the empty string and never expanded,
  the engine expands \<open>ELSE\<close> into the sink exactly when \<open>COND\<close> is empty and \<open>THEN\<close> otherwise,
  and then expands the continuation, with the table and the sink that the branch leaves; a
  diagnostic in the branch ends the run. This holds in both variants. In particular
  \<^verbatim>\<open>\if{}{T}{E}\<close> yields \<open>E\<close>, \<^verbatim>\<open>\if{x}{T}{E}\<close> yields \<open>T\<close>, and a condition that would fail if
  it were expanded, \<^verbatim>\<open>\if{\Unknown{x}}{T}{E}\<close>, yields \<open>T\<close>.
\<close>

theorem if_expands_chosen_branch:
  "(readArg p1 = Inr (condArg, p2) \<and> readArg p2 = Inr (thenArg, p3) \<and>
    readArg p3 = Inr (elseArg, p4) \<longrightarrow>
      expand_text_impl fs table (BSL # ''if'' @ p1) out =
        Option.bind
          (expand_text_impl fs table (if condArg = [] then elseArg else thenArg) out)
          (\<lambda>r. case r of Inl e \<Rightarrow> Some (Inl e)
           | Inr (table', out') \<Rightarrow> expand_text_impl fs table' p4 out')) \<and>
   (readArg2 p1 = Inr (Some condArg, p2) \<and> readArg2 p2 = Inr (Some thenArg, p3) \<and>
    readArg2 p3 = Inr (Some elseArg, p4) \<longrightarrow>
      expand_text_impl2 fs table (BSL # ''if'' @ p1) out =
        Option.bind
          (expand_text_impl2 fs table (if condArg = [] then elseArg else thenArg) out)
          (\<lambda>r. case r of Inl x \<Rightarrow> Some (Inl x)
           | Inr (table', out') \<Rightarrow> expand_text_impl2 fs table' p4 out')) \<and>
   main fs (BSL # ''if{}{T}{E}'') [] = Some \<lparr>stdout = ''E'', stderr = [], exit_status = 0\<rparr> \<and>
   main fs (BSL # ''if{x}{T}{E}'') [] = Some \<lparr>stdout = ''T'', stderr = [], exit_status = 0\<rparr> \<and>
   main fs (BSL # ''if{'' @ BSL # ''Unknown{x}}{T}{E}'') [] =
     Some \<lparr>stdout = ''T'', stderr = [], exit_status = 0\<rparr> \<and>
   main2 fs (BSL # ''if{}{T}{E}'') [] = Some \<lparr>stdout = ''E'', stderr = [], exit_status = 0\<rparr> \<and>
   main2 fs (BSL # ''if{x}{T}{E}'') [] = Some \<lparr>stdout = ''T'', stderr = [], exit_status = 0\<rparr> \<and>
   main2 fs (BSL # ''if{'' @ BSL # ''Unknown{x}}{T}{E}'') [] =
     Some \<lparr>stdout = ''T'', stderr = [], exit_status = 0\<rparr>"
proof -
  have a: "expand_text_impl fs table (BSL # ''if'' @ p1) out =
        Option.bind
          (expand_text_impl fs table (if condArg = [] then elseArg else thenArg) out)
          (\<lambda>r. case r of Inl e \<Rightarrow> Some (Inl e)
           | Inr (table', out') \<Rightarrow> expand_text_impl fs table' p4 out')"
    if "readArg p1 = Inr (condArg, p2)" "readArg p2 = Inr (thenArg, p3)"
      "readArg p3 = Inr (elseArg, p4)"
    by (subst expand_text_impl.simps) (use expand_step_if [OF that, of fs table out] in simp)
  have b: "expand_text_impl2 fs table (BSL # ''if'' @ p1) out =
        Option.bind
          (expand_text_impl2 fs table (if condArg = [] then elseArg else thenArg) out)
          (\<lambda>r. case r of Inl x \<Rightarrow> Some (Inl x)
           | Inr (table', out') \<Rightarrow> expand_text_impl2 fs table' p4 out')"
    if "readArg2 p1 = Inr (Some condArg, p2)" "readArg2 p2 = Inr (Some thenArg, p3)"
      "readArg2 p3 = Inr (Some elseArg, p4)"
    by (subst expand_text_impl2.simps) (use expand_step2_if [OF that, of fs table out] in simp)
  show ?thesis
    using a b run_if_empty [of fs] run_if_nonempty [of fs] run_if_raw_cond [of fs]
      run2_if_empty [of fs] run2_if_nonempty [of fs] run2_if_raw_cond [of fs]
    by blast
qed

theorem if_expands_chosen_branch_witness:
  "expand_text_impl (\<lambda>_. None) [] (BSL # ''if{x}{T}{E}Z'') ''a'' = Some (Inr ([], ''aTZ'')) \<and>
   expand_text_impl2 (\<lambda>_. None) [] (BSL # ''if{}{T}{E}Z'') ''a'' = Some (Inr ([], ''aEZ''))"
proof -
  have r: "readArg ''{x}{T}{E}Z'' = Inr (''x'', ''{T}{E}Z'')" "readArg ''{T}{E}Z'' = Inr (''T'', ''{E}Z'')"
    "readArg ''{E}Z'' = Inr (''E'', ''Z'')"
    by code_simp+
  have r2: "readArg2 ''{}{T}{E}Z'' = Inr (Some [], ''{T}{E}Z'')"
    "readArg2 ''{T}{E}Z'' = Inr (Some ''T'', ''{E}Z'')"
    "readArg2 ''{E}Z'' = Inr (Some ''E'', ''Z'')"
    by code_simp+
  have e: "expand_text_impl (\<lambda>_. None) [] ''T'' ''a'' = Some (Inr ([], ''aT''))"
    "expand_text_impl (\<lambda>_. None) [] ''Z'' ''aT'' = Some (Inr ([], ''aTZ''))"
    "expand_text_impl2 (\<lambda>_. None) [] ''E'' ''a'' = Some (Inr ([], ''aE''))"
    "expand_text_impl2 (\<lambda>_. None) [] ''Z'' ''aE'' = Some (Inr ([], ''aEZ''))"
    by code_simp+
  show ?thesis
    using if_expands_chosen_branch [of "''{x}{T}{E}Z''" "''x''" "''{T}{E}Z''" "''T''" "''{E}Z''"
        "''E''" "''Z''" "\<lambda>_. None" "[]" "''a''"]
      if_expands_chosen_branch [of "''{}{T}{E}Z''" "[]" "''{T}{E}Z''" "''T''" "''{E}Z''"
        "''E''" "''Z''" "\<lambda>_. None" "[]" "''a''"]
      r r2 e
    by simp
qed

section \<open>The order of \<^verbatim>\<open>expandafter\<close>\<close>

text \<open>
  Claim C1, as amended. For every invocation \<^verbatim>\<open>\expandafter{BEFORE}{AFTER}\<close> the engine first
  fully expands \<open>AFTER\<close> in isolation into a private buffer against the same live macro
  table, yielding a string \<open>S\<close>. In the second variant it then expands the concatenation of
  the raw, unexpanded \<open>BEFORE\<close> with \<open>S\<close> into the current sink, and afterwards the
  continuation. In the first variant it next expands \<open>BEFORE\<close> too, in isolation into a
  second private buffer against the table that the expansion of \<open>AFTER\<close> leaves, yielding
  \<open>B\<close>; it then expands the concatenation of \<open>B\<close> with \<open>S\<close> into the current sink, and
  afterwards the continuation.
\<close>

theorem expandafter_order:
  "(readArg2 p1 = Inr (Some beforeArg, p2) \<and> readArg2 p2 = Inr (Some afterArg, p3) \<longrightarrow>
      expand_text_impl2 fs table (BSL # ''expandafter'' @ p1) out =
        Option.bind (expand_text_into_string fs table afterArg)
          (\<lambda>r. case r of Inl (e, buf) \<Rightarrow> Some (Inl (e, out))
           | Inr (table1, expandedAfter) \<Rightarrow>
               Option.bind
                 (expand_text_impl2 fs table1 (combine_strings beforeArg expandedAfter) out)
                 (\<lambda>r. case r of Inl x \<Rightarrow> Some (Inl x)
                  | Inr (table2, out') \<Rightarrow> expand_text_impl2 fs table2 p3 out'))) \<and>
   (readArg p1 = Inr (beforeArg, p2) \<and> readArg p2 = Inr (afterArg, p3) \<longrightarrow>
      expand_text_impl fs table (BSL # ''expandafter'' @ p1) out =
        Option.bind (expand_string_fully fs table afterArg)
          (\<lambda>r. case r of Inl e \<Rightarrow> Some (Inl e)
           | Inr (table1, expandedAfter) \<Rightarrow>
               Option.bind (expand_string_fully fs table1 beforeArg)
                 (\<lambda>r. case r of Inl e \<Rightarrow> Some (Inl e)
                  | Inr (table2, expandedBefore) \<Rightarrow>
                      Option.bind
                        (expand_text_impl fs table2 (expandedBefore @ expandedAfter) out)
                        (\<lambda>r. case r of Inl e \<Rightarrow> Some (Inl e)
                         | Inr (table3, out') \<Rightarrow> expand_text_impl fs table3 p3 out'))))"
proof (intro conjI impI)
  assume a: "readArg2 p1 = Inr (Some beforeArg, p2) \<and> readArg2 p2 = Inr (Some afterArg, p3)"
  have st: "expand_step2 fs table (BSL # ''expandafter'' @ p1) out =
      ExpandAfter beforeArg afterArg p3"
    by (rule expand_step2_expandafter [OF a [THEN conjunct1] a [THEN conjunct2]])
  show "expand_text_impl2 fs table (BSL # ''expandafter'' @ p1) out =
        Option.bind (expand_text_into_string fs table afterArg)
          (\<lambda>r. case r of Inl (e, buf) \<Rightarrow> Some (Inl (e, out))
           | Inr (table1, expandedAfter) \<Rightarrow>
               Option.bind
                 (expand_text_impl2 fs table1 (combine_strings beforeArg expandedAfter) out)
                 (\<lambda>r. case r of Inl x \<Rightarrow> Some (Inl x)
                  | Inr (table2, out') \<Rightarrow> expand_text_impl2 fs table2 p3 out'))"
    by (subst expand_text_impl2.simps)
      (use st in \<open>simp add: expand_text_into_string_def combine_strings_def\<close>)
next
  assume a: "readArg p1 = Inr (beforeArg, p2) \<and> readArg p2 = Inr (afterArg, p3)"
  have st: "expand_step fs table (BSL # ''expandafter'' @ p1) out =
      ExpandAfter beforeArg afterArg p3"
    by (rule expand_step_expandafter [OF a [THEN conjunct1] a [THEN conjunct2]])
  show "expand_text_impl fs table (BSL # ''expandafter'' @ p1) out =
        Option.bind (expand_string_fully fs table afterArg)
          (\<lambda>r. case r of Inl e \<Rightarrow> Some (Inl e)
           | Inr (table1, expandedAfter) \<Rightarrow>
               Option.bind (expand_string_fully fs table1 beforeArg)
                 (\<lambda>r. case r of Inl e \<Rightarrow> Some (Inl e)
                  | Inr (table2, expandedBefore) \<Rightarrow>
                      Option.bind
                        (expand_text_impl fs table2 (expandedBefore @ expandedAfter) out)
                        (\<lambda>r. case r of Inl e \<Rightarrow> Some (Inl e)
                         | Inr (table3, out') \<Rightarrow> expand_text_impl fs table3 p3 out')))"
    by (subst expand_text_impl.simps) (use st in \<open>simp add: expand_string_fully_def\<close>)
qed

theorem expandafter_order_witness:
  "expand_text_impl2 no_files [] (BSL # ''expandafter{'' @ [BSL, BSL, BSL, BSL] @ ''}{x}Z'') ''a''
     = Some (Inr ([], ''a'' @ [BSL, BSL] @ ''xZ'')) \<and>
   expand_text_impl no_files [] (BSL # ''expandafter{'' @ [BSL, BSL, BSL, BSL] @ ''}{x}Z'') ''a''
     = Some (Inr ([], ''a'' @ [BSL] @ ''xZ''))"
proof -
  have r2: "readArg2 (''{'' @ [BSL, BSL, BSL, BSL] @ ''}{x}Z'') = Inr (Some [BSL, BSL, BSL, BSL], ''{x}Z'')"
    "readArg2 ''{x}Z'' = Inr (Some ''x'', ''Z'')"
    by code_simp+
  have r: "readArg (''{'' @ [BSL, BSL, BSL, BSL] @ ''}{x}Z'') = Inr ([BSL, BSL, BSL, BSL], ''{x}Z'')"
    "readArg ''{x}Z'' = Inr (''x'', ''Z'')"
    by code_simp+
  have e2: "expand_text_into_string no_files [] ''x'' = Some (Inr ([], ''x''))"
    "expand_text_impl2 no_files [] (combine_strings [BSL, BSL, BSL, BSL] ''x'') ''a'' =
       Some (Inr ([], ''a'' @ [BSL, BSL] @ ''x''))"
    "expand_text_impl2 no_files [] ''Z'' (''a'' @ [BSL, BSL] @ ''x'') =
       Some (Inr ([], ''a'' @ [BSL, BSL] @ ''xZ''))"
    by code_simp+
  have e: "expand_string_fully no_files [] ''x'' = Some (Inr ([], ''x''))"
    "expand_string_fully no_files [] [BSL, BSL, BSL, BSL] = Some (Inr ([], [BSL, BSL]))"
    "expand_text_impl no_files [] ([BSL, BSL] @ ''x'') ''a'' = Some (Inr ([], ''a'' @ [BSL] @ ''x''))"
    "expand_text_impl no_files [] ''Z'' (''a'' @ [BSL] @ ''x'') = Some (Inr ([], ''a'' @ [BSL] @ ''xZ''))"
    by code_simp+
  show ?thesis
    using expandafter_order [of "''{'' @ [BSL, BSL, BSL, BSL] @ ''}{x}Z''" "[BSL, BSL, BSL, BSL]"
        "''{x}Z''" "''x''" "''Z''" no_files "[]" "''a''"]
      r r2 e e2
    by simp
qed

text \<open>
  Claim C1 as stated fails on the first variant: for \<^verbatim>\<open>\expandafter{\\\\}{}\<close> the argument
  \<open>BEFORE\<close> is four backslashes and \<open>S\<close> is empty; expanding the raw \<open>BEFORE\<close> followed by
  \<open>S\<close> gives two backslashes, but the engine emits one, since it has expanded \<open>BEFORE\<close>
  once already before it expands the concatenation.
\<close>

theorem expandafter_before_expanded_counterexample:
  "readArg (''{'' @ [BSL, BSL, BSL, BSL] @ ''}{}'') = Inr ([BSL, BSL, BSL, BSL], ''{}'') \<and>
   readArg ''{}'' = Inr ([], []) \<and>
   expand_string_fully no_files [] [] = Some (Inr ([], [])) \<and>
   expand_text_impl no_files [] ([BSL, BSL, BSL, BSL] @ []) [] = Some (Inr ([], [BSL, BSL])) \<and>
   expand_text_impl no_files [] [] [BSL, BSL] = Some (Inr ([], [BSL, BSL])) \<and>
   expand_text_impl no_files [] (BSL # ''expandafter{'' @ [BSL, BSL, BSL, BSL] @ ''}{}'') [] =
     Some (Inr ([], [BSL]))"
  by code_simp

section \<open>A name without an argument\<close>

lemma skip_spaces_no_space: "p = [] \<or> \<not> isspace (hd p) \<Longrightarrow> skip_spaces p = p"
  by (cases p) (auto simp: skip_spaces_def)

lemma readArg2_no_brace:
  "\<forall>q. skip_spaces p \<noteq> CHR ''{'' # q \<Longrightarrow> readArg2 p = Inr (None, skip_spaces p)"
  by (auto simp: readArg2_def split: list.splits)

lemma dispatch2_no_brace:
  assumes "\<forall>q. skip_spaces p \<noteq> CHR ''{'' # q"
  shows "\<exists>e. dispatch2 fs table name p out = Return (Inl (e, out))"
proof -
  have r: "readArg2 p = Inr (None, skip_spaces p)"
    "readArg2 (skip_spaces p) = Inr (None, skip_spaces p)"
    using readArg2_no_brace [OF assms] readArg2_skip_spaces [of p] by simp_all
  show ?thesis
    by (simp add: dispatch2_def r split: option.splits)
qed

text \<open>
  Claim C4, as amended. In the first variant, at every scan position where a backslash is
  followed by a maximal alphanumeric run \<open>name\<close> that is followed directly by the end of the
  input or by a character that is neither white space nor an opening brace, the engine emits
  the characters \<^verbatim>\<open>\name\<close> to the sink and resumes scanning at the character immediately
  after the run; this holds whether or not \<open>name\<close> is a builtin or a defined macro. (White
  space after the run is skipped before the test for the brace.) The second variant has no
  literal form: the name is always dispatched, and when no opening brace follows it, after
  optional white space, the run ends with a diagnostic and the sink as it was.
\<close>

theorem literal_name_without_brace:
  "(name \<noteq> [] \<and> list_all isalnum name \<and>
    (rest = [] \<or> \<not> isalnum (hd rest) \<and> \<not> isspace (hd rest) \<and> hd rest \<noteq> CHR ''{'') \<longrightarrow>
      expand_text_impl fs table (BSL # name @ rest) out =
        expand_text_impl fs table rest (out @ BSL # name)) \<and>
   (name \<noteq> [] \<and> list_all isalnum name \<and> (rest = [] \<or> \<not> isalnum (hd rest)) \<and>
    (\<forall>q. skip_spaces rest \<noteq> CHR ''{'' # q) \<longrightarrow>
      (\<exists>e. expand_text_impl2 fs table (BSL # name @ rest) out = Some (Inl (e, out))))"
proof (intro conjI impI)
  assume a: "name \<noteq> [] \<and> list_all isalnum name \<and>
    (rest = [] \<or> \<not> isalnum (hd rest) \<and> \<not> isspace (hd rest) \<and> hd rest \<noteq> CHR ''{'')"
  then have sk: "skip_spaces rest = rest" by (intro skip_spaces_no_space) auto
  have "expand_step fs table (BSL # name @ rest) out = Continue table rest (out @ BSL # name)"
    using a expand_step_name [of name rest fs table out] sk by (cases rest) auto
  then show "expand_text_impl fs table (BSL # name @ rest) out =
        expand_text_impl fs table rest (out @ BSL # name)"
    by (subst expand_text_impl.simps) simp
next
  assume a: "name \<noteq> [] \<and> list_all isalnum name \<and> (rest = [] \<or> \<not> isalnum (hd rest)) \<and>
    (\<forall>q. skip_spaces rest \<noteq> CHR ''{'' # q)"
  then have "expand_step2 fs table (BSL # name @ rest) out = dispatch2 fs table name rest out"
    by (intro expand_step2_name) auto
  moreover from a obtain e where "dispatch2 fs table name rest out = Return (Inl (e, out))"
    using dispatch2_no_brace [of rest fs table name out] by auto
  ultimately have "expand_text_impl2 fs table (BSL # name @ rest) out = Some (Inl (e, out))"
    by (subst expand_text_impl2.simps) simp
  then show "\<exists>e. expand_text_impl2 fs table (BSL # name @ rest) out = Some (Inl (e, out))" ..
qed

theorem literal_name_without_brace_witness:
  "expand_text_impl no_files [(''foo'', ''x'')] (BSL # ''foo.'') ''a'' =
     Some (Inr ([(''foo'', ''x'')], ''a'' @ BSL # ''foo.'')) \<and>
   expand_text_impl no_files [] (BSL # ''def-'') ''a'' = Some (Inr ([], ''a'' @ BSL # ''def-'')) \<and>
   (\<exists>e. expand_text_impl2 no_files [] (BSL # ''foo bar'') ''a'' = Some (Inl (e, ''a'')))"
proof -
  have e: "expand_text_impl no_files [(''foo'', ''x'')] ''.'' (''a'' @ BSL # ''foo'') =
      Some (Inr ([(''foo'', ''x'')], ''a'' @ BSL # ''foo.''))"
    "expand_text_impl no_files [] ''-'' (''a'' @ BSL # ''def'') = Some (Inr ([], ''a'' @ BSL # ''def-''))"
    by code_simp+
  show ?thesis
    using literal_name_without_brace [of "''foo''" "''.''" no_files "[(''foo'', ''x'')]" "''a''"]
      literal_name_without_brace [of "''def''" "''-''" no_files "[]" "''a''"]
      literal_name_without_brace [of "''foo''" "'' bar''" no_files "[]" "''a''"]
      e
    by (simp add: isalnum_def isspace_def skip_spaces_def)
qed

text \<open>
  Claim C4 as stated fails on the input \<^verbatim>\<open>\foo bar\<close>, where the claim has \<^verbatim>\<open>\foo bar\<close> emitted
  character for character: the first variant emits \<^verbatim>\<open>\foobar\<close>, and the second stops with
  the diagnostic that \<open>foo\<close> is not defined.
\<close>

theorem literal_name_counterexample:
  "main no_files (BSL # ''foo bar'') [] =
     Some \<lparr>stdout = BSL # ''foobar'', stderr = [], exit_status = 0\<rparr> \<and>
   main2 no_files (BSL # ''foo bar'') [] =
     Some \<lparr>stdout = [], stderr = [UndefinedMacro ''foo''], exit_status = 1\<rparr>"
  by code_simp

section \<open>Unbounded recursion\<close>

lemma substitute_plain:
  "list_all isalnum n \<Longrightarrow> substitute (n @ ''{}'') arg1 = n @ ''{}''"
proof (induction n)
  case Nil
  then show ?case by simp
next
  case (Cons c n)
  obtain x m where xm: "n @ ''{}'' = x # m" by (cases "n @ ''{}''") auto
  from Cons.prems have "c \<noteq> BSL" "c \<noteq> CHR ''#''" by (auto simp: isalnum_def)
  with Cons xm show ?case by simp
qed

lemma substitute_self:
  assumes "name \<noteq> []" "list_all isalnum name"
  shows "substitute (BSL # name @ ''{}'') arg1 = BSL # name @ ''{}''"
proof -
  from assms(1) obtain d n where n: "name = d # n" by (cases name) auto
  with assms(2) have "\<not> is_special d" "list_all isalnum n" by (auto simp: not_special_isalnum)
  then show ?thesis using substitute_plain [of n arg1] by (simp add: n)
qed

lemma readArg_empty: "readArg (''{}'' @ rest) = Inr ([], rest)"
  by (simp add: readArg_def skip_spaces_def brace_not_isspace Let_def)

lemma readArg2_empty: "readArg2 (''{}'' @ rest) = Inr (Some [], rest)"
  by (simp add: readArg2_def skip_spaces_def brace_not_isspace readArg_loop2_zero)

lemma not_builtin_names:
  "\<not> is_builtin name \<Longrightarrow>
     name \<noteq> ''def'' \<and> name \<noteq> ''undef'' \<and> name \<noteq> ''if'' \<and> name \<noteq> ''ifdef'' \<and>
     name \<noteq> ''include'' \<and> name \<noteq> ''expandafter''"
  by (auto simp: is_builtin_def)

lemma expand_step_self:
  assumes "name \<noteq> []" "list_all isalnum name" "\<not> is_builtin name"
    and "lookup_macro table name = Some (BSL # name @ ''{}'')"
  shows "expand_step fs table (BSL # name @ ''{}'' @ rest) out = Expand (BSL # name @ ''{}'') rest"
proof -
  have "expand_step fs table (BSL # name @ ''{}'' @ rest) out =
      dispatch fs table name (skip_spaces (''{}'' @ rest)) out"
    by (rule expand_step_invocation [OF assms(1,2) readArg_empty])
  moreover have "skip_spaces (''{}'' @ rest) = ''{}'' @ rest"
    by (simp add: skip_spaces_def brace_not_isspace)
  ultimately show ?thesis
    using not_builtin_names [OF assms(3)] assms(4) readArg_empty [of rest]
      substitute_self [OF assms(1,2), of "[]"]
    by (simp add: dispatch_def)
qed

lemma expand_step2_self:
  assumes "name \<noteq> []" "list_all isalnum name" "\<not> is_builtin name"
    and "lookup_macro table name = Some (BSL # name @ ''{}'')"
  shows "expand_step2 fs table (BSL # name @ ''{}'' @ rest) out = Expand (BSL # name @ ''{}'') rest"
proof -
  have "expand_step2 fs table (BSL # name @ ''{}'' @ rest) out =
      dispatch2 fs table name (''{}'' @ rest) out"
    by (rule expand_step2_invocation [OF assms(1,2) readArg2_empty])
  then show ?thesis
    using not_builtin_names [OF assms(3)] assms(4) readArg2_empty [of rest]
      substitute_self [OF assms(1,2), of "[]"]
    by (simp add: dispatch2_def)
qed

lemma self_invocation_never_returns:
  assumes "name \<noteq> []" "list_all isalnum name" "\<not> is_builtin name"
    and "lookup_macro table name = Some (BSL # name @ ''{}'')"
  shows "expand_text_impl fs table (BSL # name @ ''{}'') out = None"
proof -
  let ?P = "\<lambda>(fs' :: files) (t :: MacroTable) (inp :: string) (ob :: string)
      (y :: error + MacroTable \<times> string).
      \<not> (inp = BSL # name @ ''{}'' \<and> lookup_macro t name = Some (BSL # name @ ''{}''))"
  have "?P fs' t inp ob y" if h: "expand_text_impl fs' t inp ob = Some y" for fs' t inp ob y
  proof (rule expand_text_impl.raw_induct [where P = ?P, OF _ h])
    fix f fs' t inp ob y
    assume IH: "\<And>fs' t inp ob y. f fs' t inp ob = Some y \<Longrightarrow> ?P fs' t inp ob y"
      and F: "(case expand_step fs' t inp ob of
                 Return r \<Rightarrow> Some r
               | Continue table' p out' \<Rightarrow> f fs' table' p out'
               | Expand text p \<Rightarrow>
                   Option.bind (f fs' t text ob)
                     (\<lambda>r. case r of Inl e \<Rightarrow> Some (Inl e)
                      | Inr (table', out') \<Rightarrow> f fs' table' p out')
               | ExpandAfter beforeArg afterArg p \<Rightarrow> 
                   Option.bind (f fs' t afterArg [])
                     (\<lambda>r. (case r of Inl e \<Rightarrow> Some (Inl e)
                      | Inr (table1, expandedAfter) \<Rightarrow>
                   Option.bind (f fs' table1 beforeArg [])
                     (\<lambda>r. (case r of Inl e \<Rightarrow> Some (Inl e)
                      | Inr (table2, expandedBefore) \<Rightarrow>
                   Option.bind (f fs' table2 (expandedBefore @ expandedAfter) ob)
                     (\<lambda>r. (case r of Inl e \<Rightarrow> Some (Inl e)
                      | Inr (table3, out') \<Rightarrow> f fs' table3 p out'))))))) = Some y"
    show "?P fs' t inp ob y"
    proof
      assume a: "inp = BSL # name @ ''{}'' \<and> lookup_macro t name = Some (BSL # name @ ''{}'')"
      then have "expand_step fs' t inp ob = Expand (BSL # name @ ''{}'') []"
        using expand_step_self [OF assms(1-3), where table = t and rest = "[]" and fs = fs'
            and out = ob]
        by simp
      with F obtain r where "f fs' t (BSL # name @ ''{}'') ob = Some r"
        by (auto simp: bind_eq_Some_conv)
      from IH [OF this] a show False by simp
    qed
  qed
  then show ?thesis
    using assms(4) by (cases "expand_text_impl fs table (BSL # name @ ''{}'') out") auto
qed

lemma self_invocation_never_returns2:
  assumes "name \<noteq> []" "list_all isalnum name" "\<not> is_builtin name"
    and "lookup_macro table name = Some (BSL # name @ ''{}'')"
  shows "expand_text_impl2 fs table (BSL # name @ ''{}'') out = None"
proof -
  let ?P = "\<lambda>(fs' :: files) (t :: MacroTable) (inp :: string) (ob :: string)
      (y :: error \<times> string + MacroTable \<times> string).
      \<not> (inp = BSL # name @ ''{}'' \<and> lookup_macro t name = Some (BSL # name @ ''{}''))"
  have "?P fs' t inp ob y" if h: "expand_text_impl2 fs' t inp ob = Some y" for fs' t inp ob y
  proof (rule expand_text_impl2.raw_induct [where P = ?P, OF _ h])
    fix f fs' t inp ob y
    assume IH: "\<And>fs' t inp ob y. f fs' t inp ob = Some y \<Longrightarrow> ?P fs' t inp ob y"
      and F: "(case expand_step2 fs' t inp ob of
                 Return r \<Rightarrow> Some r
               | Continue table' p out' \<Rightarrow> f fs' table' p out'
               | Expand text p \<Rightarrow>
                   Option.bind (f fs' t text ob)
                     (\<lambda>r. case r of Inl x \<Rightarrow> Some (Inl x)
                      | Inr (table', out') \<Rightarrow> f fs' table' p out')
               | ExpandAfter beforeArg afterArg p \<Rightarrow> 
                   Option.bind (f fs' t afterArg [])
                     (\<lambda>r. (case r of Inl (e, buf) \<Rightarrow> Some (Inl (e, ob))
                      | Inr (table1, expandedAfter) \<Rightarrow>
                   Option.bind (f fs' table1 (beforeArg @ expandedAfter) ob)
                     (\<lambda>r. (case r of Inl x \<Rightarrow> Some (Inl x)
                      | Inr (table2, out') \<Rightarrow> f fs' table2 p out'))))) = Some y"
    show "?P fs' t inp ob y"
    proof
      assume a: "inp = BSL # name @ ''{}'' \<and> lookup_macro t name = Some (BSL # name @ ''{}'')"
      then have "expand_step2 fs' t inp ob = Expand (BSL # name @ ''{}'') []"
        using expand_step2_self [OF assms(1-3), where table = t and rest = "[]" and fs = fs'
            and out = ob]
        by simp
      with F obtain r where "f fs' t (BSL # name @ ''{}'') ob = Some r"
        by (auto simp: bind_eq_Some_conv)
      from IH [OF this] a show False by simp
    qed
  qed
  then show ?thesis
    using assms(4) by (cases "expand_text_impl2 fs table (BSL # name @ ''{}'') out") auto
qed

text \<open>
  Claim C3, as amended. Neither variant bounds the depth of its recursion, and neither has a
  diagnostic for it: an input whose expansion recurses without bound is not detected, and the
  run never returns (the C program recurses until its stack is exhausted, with nothing
  reported). In particular, whenever a macro \<open>name\<close> is bound to the template \<^verbatim>\<open>\name{}\<close>,
  which invokes the macro itself, expanding an invocation \<^verbatim>\<open>\name{}\<close> never returns in either
  variant, whatever the continuation and the sink are.
\<close>

theorem self_reference_never_returns:
  assumes "name \<noteq> []" "list_all isalnum name" "\<not> is_builtin name"
    and "lookup_macro table name = Some (BSL # name @ ''{}'')"
  shows "expand_text_impl fs table (BSL # name @ ''{}'' @ rest) out = None \<and>
         expand_text_impl2 fs table (BSL # name @ ''{}'' @ rest) out = None"
proof
  show "expand_text_impl fs table (BSL # name @ ''{}'' @ rest) out = None"
    by (subst expand_text_impl.simps)
      (use expand_step_self [OF assms, of fs rest out]
        self_invocation_never_returns [OF assms, of fs out] in simp)
  show "expand_text_impl2 fs table (BSL # name @ ''{}'' @ rest) out = None"
    by (subst expand_text_impl2.simps)
      (use expand_step2_self [OF assms, of fs rest out]
        self_invocation_never_returns2 [OF assms, of fs out] in simp)
qed

theorem self_reference_never_returns_witness:
  "expand_text_impl no_files [(''A'', BSL # ''A{}'')] (BSL # ''A{}'' @ ''Z'') ''a'' = None \<and>
   expand_text_impl2 no_files [(''A'', BSL # ''A{}'')] (BSL # ''A{}'' @ ''Z'') ''a'' = None"
  using self_reference_never_returns [of "''A''" "[(''A'', BSL # ''A{}'')]" no_files "''Z''" "''a''"]
  by (simp add: isalnum_def is_builtin_def)

text \<open>
  Claim C3 as stated fails on the input \<^verbatim>\<open>\def{A}{\A{}}\A{}\<close>: the run of either variant
  neither terminates normally nor aborts with a diagnostic, it has no outcome at all.
\<close>

theorem unbounded_recursion_counterexample:
  "main no_files (BSL # ''def{A}{'' @ BSL # ''A{}}'' @ BSL # ''A{}'') [] = None \<and>
   main2 no_files (BSL # ''def{A}{'' @ BSL # ''A{}}'' @ BSL # ''A{}'') [] = None"
proof -
  let ?input = "BSL # ''def{A}{'' @ BSL # ''A{}}'' @ BSL # ''A{}''"
  have rd: "read_all_input_and_remove_comments no_files ?input [] = Inr ?input"
    by code_simp
  have s1: "expand_step no_files [] ?input [] = Continue [(''A'', BSL # ''A{}'')] (BSL # ''A{}'') []"
    by code_simp
  have s2: "expand_step2 no_files [] ?input [] = Continue [(''A'', BSL # ''A{}'')] (BSL # ''A{}'') []"
    by code_simp
  have d1: "expand_text_impl no_files [(''A'', BSL # ''A{}'')] (BSL # ''A{}'') [] = None"
    using self_invocation_never_returns [of "''A''" "[(''A'', BSL # ''A{}'')]" no_files "[]"]
    by (simp add: isalnum_def is_builtin_def)
  have d2: "expand_text_impl2 no_files [(''A'', BSL # ''A{}'')] (BSL # ''A{}'') [] = None"
    using self_invocation_never_returns2 [of "''A''" "[(''A'', BSL # ''A{}'')]" no_files "[]"]
    by (simp add: isalnum_def is_builtin_def)
  have e1: "expand_text_impl no_files [] ?input [] = None"
    by (subst expand_text_impl.simps) (simp only: s1 step.case d1)
  have e2: "expand_text_impl2 no_files [] ?input [] = None"
    by (subst expand_text_impl2.simps) (simp only: s2 step.case d2)
  show ?thesis
    by (simp only: main_def main2_def parse_and_expand_def parse_and_expand2_def rd
        init_macro_table_def sum.case e1 e2 option.map)
qed

section \<open>The invariant of the macro table\<close>

lemma list_ex_lookup: "list_ex (\<lambda>cur. fst cur = name) table = (lookup_macro table name \<noteq> None)"
  by (induction table) auto

lemma list_ex_names: "list_ex (\<lambda>cur. fst cur = name) table = (name \<in> set (map fst table))"
  by (induction table) auto

lemma undef_macro_names:
  "undef_macro table name = Inr table' \<Longrightarrow>
     set (map fst table') \<subseteq> set (map fst table) \<and>
     (distinct (map fst table) \<longrightarrow> distinct (map fst table'))"
proof (induction table arbitrary: table')
  case Nil
  then show ?case by simp
next
  case (Cons cur rest)
  show ?case
  proof (cases "fst cur = name")
    case True
    with Cons.prems show ?thesis by auto
  next
    case False
    with Cons.prems obtain rest' where r: "undef_macro rest name = Inr rest'" "table' = cur # rest'"
      by (auto split: sum.splits)
    from Cons.IH [OF r(1)] r(2) show ?thesis by auto
  qed
qed

lemma define_macro_ok:
  "define_macro table name val = Inr table' \<Longrightarrow>
     distinct (map fst table) \<and> (\<forall>n\<in>set (map fst table). \<not> is_builtin n) \<Longrightarrow>
     distinct (map fst table') \<and> (\<forall>n\<in>set (map fst table'). \<not> is_builtin n)"
  by (auto simp: define_macro_def list_ex_names split: if_splits)

lemma undef_macro_ok:
  "undef_macro table name = Inr table' \<Longrightarrow>
     distinct (map fst table) \<and> (\<forall>n\<in>set (map fst table). \<not> is_builtin n) \<Longrightarrow>
     distinct (map fst table') \<and> (\<forall>n\<in>set (map fst table'). \<not> is_builtin n)"
  using undef_macro_names [of table name table'] by blast

lemma define_macro2_distinct:
  "define_macro2 table name val = Inr table' \<Longrightarrow> distinct (map fst table) \<Longrightarrow>
     distinct (map fst table')"
  by (auto simp: define_macro2_def list_ex_names split: if_splits)

lemma apply_ops_ok:
  "apply_ops table ops = Inr table' \<Longrightarrow>
     distinct (map fst table) \<and> (\<forall>n\<in>set (map fst table). \<not> is_builtin n) \<Longrightarrow>
     distinct (map fst table') \<and> (\<forall>n\<in>set (map fst table'). \<not> is_builtin n)"
proof (induction table ops rule: apply_ops.induct)
  case (1 table)
  then show ?case by simp
next
  case (2 table name val ops)
  from 2(2) obtain t1 where t1: "define_macro table name val = Inr t1" "apply_ops t1 ops = Inr table'"
    by (auto split: sum.splits)
  from 2(1) [OF t1] define_macro_ok [OF t1(1) 2(3)] show ?case by blast
next
  case (3 table name ops)
  from 3(2) obtain t1 where t1: "undef_macro table name = Inr t1" "apply_ops t1 ops = Inr table'"
    by (auto split: sum.splits)
  from 3(1) [OF t1] undef_macro_ok [OF t1(1) 3(3)] show ?case by blast
qed

lemma apply_ops2_distinct:
  "apply_ops2 table ops = Inr table' \<Longrightarrow> distinct (map fst table) \<Longrightarrow>
     distinct (map fst table')"
proof (induction table ops rule: apply_ops2.induct)
  case (1 table)
  then show ?case by simp
next
  case (2 table name val ops)
  from 2(2) obtain t1 where t1: "define_macro2 table name val = Inr t1"
    "apply_ops2 t1 ops = Inr table'"
    by (auto split: sum.splits)
  from 2(1) [OF t1] define_macro2_distinct [OF t1(1) 2(3)] show ?case by blast
next
  case (3 table name ops)
  from 3(2) obtain t1 where t1: "undef_macro table name = Inr t1" "apply_ops2 t1 ops = Inr table'"
    by (auto split: sum.splits)
  from 3(1) [OF t1] undef_macro_names [OF t1(1)] 3(3) show ?case by blast
qed

lemma dispatch_Continue:
  "dispatch fs table nameBuf p1 out = Continue table' p out' \<Longrightarrow>
     (\<exists>name val. define_macro table name val = Inr table') \<or>
     (\<exists>name. undef_macro table name = Inr table')"
  by (auto simp: dispatch_def split: if_splits sum.splits prod.splits option.splits)

lemma dispatch_Return: "dispatch fs table nameBuf p1 out = Return (Inr x) \<Longrightarrow> False"
  by (auto simp: dispatch_def split: if_splits sum.splits prod.splits option.splits)

lemma expand_step_Continue:
  "expand_step fs table input out = Continue table' p out' \<Longrightarrow>
     table' = table \<or> (\<exists>name val. define_macro table name val = Inr table') \<or>
     (\<exists>name. undef_macro table name = Inr table')"
  by (auto simp: expand_step_def Let_def split: list.splits if_splits dest: dispatch_Continue)

lemma expand_step_Return:
  "expand_step fs table input out = Return (Inr (table', out')) \<Longrightarrow> table' = table"
  by (auto simp: expand_step_def Let_def split: list.splits if_splits dest: dispatch_Return)

lemma dispatch2_Continue:
  "dispatch2 fs table nameBuf p1 out = Continue table' p out' \<Longrightarrow>
     (\<exists>name val. define_macro2 table name val = Inr table') \<or>
     (\<exists>name. undef_macro table name = Inr table')"
  by (auto simp: dispatch2_def split: if_splits sum.splits prod.splits option.splits)

lemma dispatch2_Return: "dispatch2 fs table nameBuf p1 out = Return (Inr x) \<Longrightarrow> False"
  by (auto simp: dispatch2_def split: if_splits sum.splits prod.splits option.splits)

lemma expand_step2_Continue:
  "expand_step2 fs table input out = Continue table' p out' \<Longrightarrow>
     table' = table \<or> (\<exists>name val. define_macro2 table name val = Inr table') \<or>
     (\<exists>name. undef_macro table name = Inr table')"
  by (auto simp: expand_step2_def split: list.splits if_splits prod.splits dest: dispatch2_Continue)

lemma expand_step2_Return:
  "expand_step2 fs table input out = Return (Inr (table', out')) \<Longrightarrow> table' = table"
  by (auto simp: expand_step2_def split: list.splits if_splits prod.splits dest: dispatch2_Return)


lemma expand_text_impl_table_ok:
  assumes h: "expand_text_impl fs table input out = Some (Inr (table', out'))"
    and ok: "distinct (map fst table) \<and> (\<forall>n\<in>set (map fst table). \<not> is_builtin n)"
  shows "distinct (map fst table') \<and> (\<forall>n\<in>set (map fst table'). \<not> is_builtin n)"
proof -
  let ?ok = "\<lambda>t :: MacroTable. distinct (map fst t) \<and> (\<forall>n\<in>set (map fst t). \<not> is_builtin n)"
  let ?P = "\<lambda>(fs :: files) (t :: MacroTable) (inp :: string) (ob :: string)
      (y :: error + MacroTable \<times> string). ?ok t \<longrightarrow> (\<forall>t' o'. y = Inr (t', o') \<longrightarrow> ?ok t')"
  have "?P fs table input out (Inr (table', out'))"
  proof (rule expand_text_impl.raw_induct [where P = ?P, OF _ h])
    fix f fs t inp ob y
    assume IH: "\<And>fs t inp ob y. f fs t inp ob = Some y \<Longrightarrow> ?P fs t inp ob y"
      and F: "(case expand_step fs t inp ob of
                 Return r \<Rightarrow> Some r
               | Continue table' p out' \<Rightarrow> f fs table' p out'
               | Expand text p \<Rightarrow>
                   Option.bind (f fs t text ob)
                     (\<lambda>r. case r of Inl e \<Rightarrow> Some (Inl e)
                      | Inr (table', out') \<Rightarrow> f fs table' p out')
               | ExpandAfter beforeArg afterArg p \<Rightarrow>
                   Option.bind (f fs t afterArg [])
                     (\<lambda>r. (case r of Inl e \<Rightarrow> Some (Inl e)
                      | Inr (table1, expandedAfter) \<Rightarrow>
                   Option.bind (f fs table1 beforeArg [])
                     (\<lambda>r. (case r of Inl e \<Rightarrow> Some (Inl e)
                      | Inr (table2, expandedBefore) \<Rightarrow>
                   Option.bind (f fs table2 (expandedBefore @ expandedAfter) ob)
                     (\<lambda>r. (case r of Inl e \<Rightarrow> Some (Inl e)
                      | Inr (table3, out') \<Rightarrow> f fs table3 p out'))))))) = Some y"
    show "?P fs t inp ob y"
    proof (intro impI allI)
      fix t' o'
      assume okt: "?ok t" and y: "y = Inr (t', o')"
      show "?ok t'"
      proof (cases "expand_step fs t inp ob")
        case (Return r)
        with F y expand_step_Return [of fs t inp ob t' o'] okt show ?thesis by simp
      next
        case (Continue t1 p o1)
        from expand_step_Continue [OF Continue] okt define_macro_ok undef_macro_ok
        have "?ok t1" by blast
        moreover from Continue F have "f fs t1 p o1 = Some y" by simp
        ultimately show ?thesis using IH y by blast
      next
        case (Expand body p)
        with F obtain r where r: "f fs t body ob = Some r"
          and k: "(case r of Inl e \<Rightarrow> Some (Inl e) | Inr (table', out') \<Rightarrow> f fs table' p out') = Some y"
          by (auto simp: bind_eq_Some_conv)
        from k y obtain t1 o1 where r1: "r = Inr (t1, o1)" "f fs t1 p o1 = Some y"
          by (cases r) auto
        from IH [OF r] okt r1(1) have "?ok t1" by blast
        with IH [OF r1(2)] y show ?thesis by blast
      next
        case (ExpandAfter beforeArg afterArg p)
        with F obtain r where r: "f fs t afterArg [] = Some r"
          and k: "(case r of Inl e \<Rightarrow> Some (Inl e)
                   | Inr (table1, expandedAfter) \<Rightarrow>
                   Option.bind (f fs table1 beforeArg [])
                     (\<lambda>r. (case r of Inl e \<Rightarrow> Some (Inl e)
                      | Inr (table2, expandedBefore) \<Rightarrow>
                   Option.bind (f fs table2 (expandedBefore @ expandedAfter) ob)
                     (\<lambda>r. (case r of Inl e \<Rightarrow> Some (Inl e)
                      | Inr (table3, out') \<Rightarrow> f fs table3 p out'))))) = Some y"
          by (auto simp: bind_eq_Some_conv)
        from k y obtain t1 s1 r' where r1: "r = Inr (t1, s1)" "f fs t1 beforeArg [] = Some r'"
          and k': "(case r' of Inl e \<Rightarrow> Some (Inl e)
                      | Inr (table2, expandedBefore) \<Rightarrow>
                   Option.bind (f fs table2 (expandedBefore @ s1) ob)
                     (\<lambda>r. (case r of Inl e \<Rightarrow> Some (Inl e)
                      | Inr (table3, out') \<Rightarrow> f fs table3 p out'))) = Some y"
          by (cases r) (auto simp: bind_eq_Some_conv)
        from k' y obtain t2 s2 r'' where r2: "r' = Inr (t2, s2)"
          "f fs t2 (s2 @ s1) ob = Some r''"
          and k'': "(case r'' of Inl e \<Rightarrow> Some (Inl e)
                      | Inr (table3, out') \<Rightarrow> f fs table3 p out') = Some y"
          by (cases r') (auto simp: bind_eq_Some_conv)
        from k'' y obtain t3 o3 where r3: "r'' = Inr (t3, o3)" "f fs t3 p o3 = Some y"
          by (cases r'') auto
        from IH [OF r] okt r1(1) have "?ok t1" by blast
        with IH [OF r1(2)] r2(1) have "?ok t2" by blast
        with IH [OF r2(2)] r3(1) have "?ok t3" by blast
        with IH [OF r3(2)] y show ?thesis by blast
      qed
    qed
  qed
  with ok show ?thesis by blast
qed

lemma expand_text_impl2_distinct:
  assumes h: "expand_text_impl2 fs table input out = Some (Inr (table', out'))"
    and ok: "distinct (map fst table)"
  shows "distinct (map fst table')"
proof -
  let ?ok = "\<lambda>t :: MacroTable. distinct (map fst t)"
  let ?P = "\<lambda>(fs :: files) (t :: MacroTable) (inp :: string) (ob :: string)
      (y :: error \<times> string + MacroTable \<times> string).
      ?ok t \<longrightarrow> (\<forall>t' o'. y = Inr (t', o') \<longrightarrow> ?ok t')"
  have "?P fs table input out (Inr (table', out'))"
  proof (rule expand_text_impl2.raw_induct [where P = ?P, OF _ h])
    fix f fs t inp ob y
    assume IH: "\<And>fs t inp ob y. f fs t inp ob = Some y \<Longrightarrow> ?P fs t inp ob y"
      and F: "(case expand_step2 fs t inp ob of
                 Return r \<Rightarrow> Some r
               | Continue table' p out' \<Rightarrow> f fs table' p out'
               | Expand text p \<Rightarrow>
                   Option.bind (f fs t text ob)
                     (\<lambda>r. case r of Inl x \<Rightarrow> Some (Inl x)
                      | Inr (table', out') \<Rightarrow> f fs table' p out')
               | ExpandAfter beforeArg afterArg p \<Rightarrow>
                   Option.bind (f fs t afterArg [])
                     (\<lambda>r. (case r of Inl (e, buf) \<Rightarrow> Some (Inl (e, ob))
                      | Inr (table1, expandedAfter) \<Rightarrow>
                   Option.bind (f fs table1 (beforeArg @ expandedAfter) ob)
                     (\<lambda>r. (case r of Inl x \<Rightarrow> Some (Inl x)
                      | Inr (table2, out') \<Rightarrow> f fs table2 p out'))))) = Some y"
    show "?P fs t inp ob y"
    proof (intro impI allI)
      fix t' o'
      assume okt: "?ok t" and y: "y = Inr (t', o')"
      show "?ok t'"
      proof (cases "expand_step2 fs t inp ob")
        case (Return r)
        with F y expand_step2_Return [of fs t inp ob t' o'] okt show ?thesis by simp
      next
        case (Continue t1 p o1)
        from expand_step2_Continue [OF Continue] okt define_macro2_distinct undef_macro_names
        have "?ok t1" by blast
        moreover from Continue F have "f fs t1 p o1 = Some y" by simp
        ultimately show ?thesis using IH y by blast
      next
        case (Expand body p)
        with F obtain r where r: "f fs t body ob = Some r"
          and k: "(case r of Inl x \<Rightarrow> Some (Inl x) | Inr (table', out') \<Rightarrow> f fs table' p out') = Some y"
          by (auto simp: bind_eq_Some_conv)
        from k y obtain t1 o1 where r1: "r = Inr (t1, o1)" "f fs t1 p o1 = Some y"
          by (cases r) auto
        from IH [OF r] okt r1(1) have "?ok t1" by blast
        with IH [OF r1(2)] y show ?thesis by blast
      next
        case (ExpandAfter beforeArg afterArg p)
        with F obtain r where r: "f fs t afterArg [] = Some r"
          and k: "(case r of Inl (e, buf) \<Rightarrow> Some (Inl (e, ob))
                      | Inr (table1, expandedAfter) \<Rightarrow>
                   Option.bind (f fs table1 (beforeArg @ expandedAfter) ob)
                     (\<lambda>r. (case r of Inl x \<Rightarrow> Some (Inl x)
                      | Inr (table2, out') \<Rightarrow> f fs table2 p out'))) = Some y"
          by (auto simp: bind_eq_Some_conv)
        from k y obtain t1 s1 r' where r1: "r = Inr (t1, s1)"
          "f fs t1 (beforeArg @ s1) ob = Some r'"
          and k': "(case r' of Inl x \<Rightarrow> Some (Inl x)
                      | Inr (table2, out') \<Rightarrow> f fs table2 p out') = Some y"
          by (cases r) (auto simp: bind_eq_Some_conv)
        from k' y obtain t2 o2 where r2: "r' = Inr (t2, o2)" "f fs t2 p o2 = Some y"
          by (cases r') auto
        from IH [OF r] okt r1(1) have "?ok t1" by blast
        with IH [OF r1(2)] r2(1) have "?ok t2" by blast
        with IH [OF r2(2)] y show ?thesis by blast
      qed
    qed
  qed
  with ok show ?thesis by blast
qed

text \<open>
  Claim C5, as amended. In every state of the macro table reachable by any sequence of define
  and undefine operations performed during an expansion run, each name is bound by at most
  one entry, in both variants; in the first variant, moreover, none of the six builtin names
  is ever stored as an entry. The second variant stores a builtin name like any other name.
  The same holds of the table that a whole expansion leaves when it returns.
\<close>

theorem table_invariant:
  "(apply_ops init_macro_table ops = Inr table \<longrightarrow>
      distinct (map fst table) \<and> (\<forall>name\<in>set (map fst table). \<not> is_builtin name)) \<and>
   (apply_ops2 init_macro_table ops = Inr table \<longrightarrow> distinct (map fst table)) \<and>
   (expand_text_impl fs init_macro_table input [] = Some (Inr (table, out)) \<longrightarrow>
      distinct (map fst table) \<and> (\<forall>name\<in>set (map fst table). \<not> is_builtin name)) \<and>
   (expand_text_impl2 fs init_macro_table input [] = Some (Inr (table, out)) \<longrightarrow>
      distinct (map fst table))"
  using apply_ops_ok [of init_macro_table ops table]
    apply_ops2_distinct [of init_macro_table ops table]
    expand_text_impl_table_ok [of fs init_macro_table input "[]" table out]
    expand_text_impl2_distinct [of fs init_macro_table input "[]" table out]
  by (simp add: init_macro_table_def)

theorem table_invariant_witness:
  "apply_ops init_macro_table [Define ''A'' ''1'', Define ''if'' ''x'', Define ''B'' ''2'', Undefine ''A'']
     = Inr [(''B'', ''2'')] \<and>
   distinct (map fst [(''B'', ''2'')]) \<and> \<not> is_builtin ''B'' \<and>
   apply_ops2 init_macro_table [Define ''A'' ''1'', Define ''B'' ''2'', Undefine ''A'']
     = Inr [(''B'', ''2'')] \<and>
   expand_text_impl no_files init_macro_table
     (BSL # ''def{A}{1}'' @ BSL # ''def{if}{x}'' @ BSL # ''def{B}{2}'' @ BSL # ''undef{A}'') []
     = Some (Inr ([(''B'', ''2'')], [])) \<and>
   expand_text_impl2 no_files init_macro_table
     (BSL # ''def{A}{1}'' @ BSL # ''def{B}{2}'' @ BSL # ''undef{A}'') []
     = Some (Inr ([(''B'', ''2'')], []))"
proof -
  have e: "apply_ops init_macro_table
       [Define ''A'' ''1'', Define ''if'' ''x'', Define ''B'' ''2'', Undefine ''A''] = Inr [(''B'', ''2'')]"
    "apply_ops2 init_macro_table [Define ''A'' ''1'', Define ''B'' ''2'', Undefine ''A'']
     = Inr [(''B'', ''2'')]"
    "expand_text_impl no_files init_macro_table
     (BSL # ''def{A}{1}'' @ BSL # ''def{if}{x}'' @ BSL # ''def{B}{2}'' @ BSL # ''undef{A}'') []
     = Some (Inr ([(''B'', ''2'')], []))"
    "expand_text_impl2 no_files init_macro_table
     (BSL # ''def{A}{1}'' @ BSL # ''def{B}{2}'' @ BSL # ''undef{A}'') []
     = Some (Inr ([(''B'', ''2'')], []))"
    by code_simp+
  show ?thesis
    using table_invariant [of "[Define ''A'' ''1'', Define ''if'' ''x'', Define ''B'' ''2'', Undefine ''A'']"
        "[(''B'', ''2'')]" no_files
        "BSL # ''def{A}{1}'' @ BSL # ''def{if}{x}'' @ BSL # ''def{B}{2}'' @ BSL # ''undef{A}''" "[]"]
      table_invariant [of "[Define ''A'' ''1'', Define ''B'' ''2'', Undefine ''A'']"
        "[(''B'', ''2'')]" no_files
        "BSL # ''def{A}{1}'' @ BSL # ''def{B}{2}'' @ BSL # ''undef{A}''" "[]"]
      e
    by simp
qed

text \<open>
  Claim C5 as stated fails on the second variant: \<^verbatim>\<open>\def{if}{x}\<close> stores the builtin name
  \<open>if\<close> in the table.
\<close>

theorem builtin_name_stored_counterexample:
  "is_builtin ''if'' \<and>
   apply_ops2 init_macro_table [Define ''if'' ''x''] = Inr [(''if'', ''x'')] \<and>
   expand_text_impl2 no_files init_macro_table (BSL # ''def{if}{x}'') [] =
     Some (Inr ([(''if'', ''x'')], []))"
  by code_simp

section \<open>Defining a macro\<close>

lemma run_def_twice:
  "main fs (BSL # ''def{A}{1}'' @ BSL # ''def{A}{2}'') [] =
     Some \<lparr>stdout = [], stderr = [DuplicateMacro ''A''], exit_status = 0\<rparr>"
  by code_simp

lemma run2_def_twice:
  "main2 fs (BSL # ''def{A}{1}'' @ BSL # ''def{A}{2}'') [] =
     Some \<lparr>stdout = [], stderr = [DuplicateMacro ''A''], exit_status = 1\<rparr>"
  by code_simp

text \<open>
  Claim C6, as amended. \<^verbatim>\<open>define(name, value)\<close> fails with a \<open>DuplicateMacro\<close> error whenever
  \<open>name\<close> is already bound in the macro table, and otherwise adds the binding, leaving every
  other name as it was; except that in the first variant a define of one of the six builtin
  names is ignored: it neither fails nor adds a binding. In particular, expanding the input
  \<^verbatim>\<open>\def{A}{1}\def{A}{2}\<close> fails with \<open>DuplicateMacro\<close> in both variants.
\<close>

theorem define_duplicate:
  "(lookup_macro table name \<noteq> None \<longrightarrow>
      define_macro2 table name val = Inl (DuplicateMacro name)) \<and>
   (lookup_macro table name = None \<longrightarrow>
      (\<exists>table'. define_macro2 table name val = Inr table' \<and>
         lookup_macro table' name = Some val \<and>
         (\<forall>other. other \<noteq> name \<longrightarrow> lookup_macro table' other = lookup_macro table other))) \<and>
   (\<not> is_builtin name \<and> lookup_macro table name \<noteq> None \<longrightarrow>
      define_macro table name val = Inl (DuplicateMacro name)) \<and>
   (\<not> is_builtin name \<and> lookup_macro table name = None \<longrightarrow>
      (\<exists>table'. define_macro table name val = Inr table' \<and>
         lookup_macro table' name = Some val \<and>
         (\<forall>other. other \<noteq> name \<longrightarrow> lookup_macro table' other = lookup_macro table other))) \<and>
   (is_builtin name \<longrightarrow> define_macro table name val = Inr table) \<and>
   main fs (BSL # ''def{A}{1}'' @ BSL # ''def{A}{2}'') [] =
     Some \<lparr>stdout = [], stderr = [DuplicateMacro ''A''], exit_status = 0\<rparr> \<and>
   main2 fs (BSL # ''def{A}{1}'' @ BSL # ''def{A}{2}'') [] =
     Some \<lparr>stdout = [], stderr = [DuplicateMacro ''A''], exit_status = 1\<rparr>"
  using run_def_twice [of fs] run2_def_twice [of fs]
  by (simp add: define_macro_def define_macro2_def list_ex_lookup)

theorem define_duplicate_witness:
  "define_macro2 [(''A'', ''1'')] ''A'' ''2'' = Inl (DuplicateMacro ''A'') \<and>
   define_macro [(''A'', ''1'')] ''A'' ''2'' = Inl (DuplicateMacro ''A'') \<and>
   define_macro2 [(''A'', ''1'')] ''B'' ''2'' = Inr [(''B'', ''2''), (''A'', ''1'')] \<and>
   define_macro [(''A'', ''1'')] ''B'' ''2'' = Inr [(''B'', ''2''), (''A'', ''1'')] \<and>
   define_macro [(''A'', ''1'')] ''undef'' ''2'' = Inr [(''A'', ''1'')]"
proof -
  have e: "define_macro2 [(''A'', ''1'')] ''B'' ''2'' = Inr [(''B'', ''2''), (''A'', ''1'')]"
    "define_macro [(''A'', ''1'')] ''B'' ''2'' = Inr [(''B'', ''2''), (''A'', ''1'')]"
    by code_simp+
  show ?thesis
    using define_duplicate [of "[(''A'', ''1'')]" "''A''" "''2''" no_files]
      define_duplicate [of "[(''A'', ''1'')]" "''undef''" "''2''" no_files]
      e
    by (simp add: is_builtin_def)
qed

text \<open>
  Claim C6 as stated fails on the first variant for a builtin name: \<open>if\<close> is not bound in the
  empty table, yet defining it leaves the table empty, and \<^verbatim>\<open>\ifdef{if}\<close> still takes its
  else branch afterwards.
\<close>

theorem define_builtin_ignored_counterexample:
  "lookup_macro init_macro_table ''if'' = None \<and>
   define_macro init_macro_table ''if'' ''x'' = Inr init_macro_table \<and>
   main no_files (BSL # ''def{if}{x}'' @ BSL # ''ifdef{if}{bound}{unbound}'') [] =
     Some \<lparr>stdout = ''unbound'', stderr = [], exit_status = 0\<rparr>"
  by code_simp

section \<open>The outcome of a failing run\<close>






















end
